theory Spec2Isabelle
  imports Main
begin

section \<open>Morse transcoder: the symbol table, encodeText and decodeText\<close>

text \<open>
  The repository holds two variants of one program: \<^verbatim>\<open>main.c\<close> and \<^verbatim>\<open>morse.c\<close> (the file
  CMake builds). Their lookup and transcoding functions are the same code over a different
  \<^verbatim>\<open>MORSE_TABLE\<close>; \<^verbatim>\<open>morse.c\<close> adds the flag \<^verbatim>\<open>useSlashWordspacer\<close> to \<^verbatim>\<open>encodeText\<close>. The
  functions below take the table as a parameter, so that one definition embeds both
  variants; \<^verbatim>\<open>main.c\<close>'s \<^verbatim>\<open>encodeText\<close> is the one of \<^verbatim>\<open>morse.c\<close> with the flag false.

  The arguments are strings: the branch for a \<^verbatim>\<open>NULL\<close> argument is not part of the model.
  \<^verbatim>\<open>decodeText\<close> is given the memory it asks for; for \<^verbatim>\<open>encodeText\<close> the model has both
  the string it builds (\<open>encodeText\<close>) and the function with its allocation and its buffer
  (\<open>encodeText_buf\<close>). Indices, sizes and the space counter are unbounded numbers; they
  never exceed ten times the length of the input and the number 3.
\<close>

subsection \<open>C strings and buffers\<close>

text \<open>
  A \<^verbatim>\<open>const char *\<close> argument is modelled by the bytes that follow the pointer; the string it
  denotes ends before the first NUL byte (or at the end of the list, where the terminator
  stands).
\<close>

definition c_str :: "string \<Rightarrow> string" where
  "c_str s = takeWhile (\<lambda>c. c \<noteq> CHR 0x00) s"

definition strlen :: "string \<Rightarrow> nat" where
  "strlen s = length (c_str s)"

text \<open>\<^verbatim>\<open>strcmp(a, b) == 0\<close>: the two strings agree up to their terminators.\<close>

definition strcmp_eq :: "string \<Rightarrow> string \<Rightarrow> bool" where
  "strcmp_eq a b = (c_str a = c_str b)"

text \<open>
  \<^verbatim>\<open>strcat(result, s)\<close> on the string held in \<^verbatim>\<open>result\<close>, when the buffer has room for
  it; \<open>strcat_buf\<close> below is \<^verbatim>\<open>strcat\<close> on the buffer itself.
\<close>

definition strcat :: "string \<Rightarrow> string \<Rightarrow> string" where
  "strcat dst src = dst @ c_str src"

text \<open>
  The buffers the two functions write are lists of cells; a cell of freshly allocated
  memory holds no value (\<open>None\<close>). A write outside the buffer, a read of a cell that was
  never written and a string that runs to the end of its buffer without a terminator are
  errors of the model; \<open>MemoryError\<close> is the way out \<^verbatim>\<open>encodeText\<close> takes when \<^verbatim>\<open>malloc\<close>
  returns \<^verbatim>\<open>NULL\<close>.
\<close>

datatype error = OutOfBounds | Uninitialised | MemoryError

type_synonym buffer = "char option list"

definition malloc :: "nat \<Rightarrow> buffer" where
  "malloc n = replicate n None"

definition store :: "buffer \<Rightarrow> nat \<Rightarrow> char \<Rightarrow> error + buffer" where
  "store buf i c = (if i < length buf then Inr (buf[i := Some c]) else Inl OutOfBounds)"

fun read_str :: "buffer \<Rightarrow> error + string" where
  "read_str [] = Inl OutOfBounds"
| "read_str (None # cells) = Inl Uninitialised"
| "read_str (Some c # cells) =
     (if c = CHR 0x00 then Inr []
      else (case read_str cells of Inl e \<Rightarrow> Inl e | Inr s \<Rightarrow> Inr (c # s)))"

text \<open>
  \<^verbatim>\<open>strcat(dst, src)\<close> on a buffer: it finds the terminator of the string in \<^verbatim>\<open>dst\<close> and
  copies the bytes of \<^verbatim>\<open>src\<close> and then its terminator there, one store each.
\<close>

fun store_str :: "buffer \<Rightarrow> nat \<Rightarrow> string \<Rightarrow> error + buffer" where
  "store_str buf i [] = store buf i (CHR 0x00)"
| "store_str buf i (c # cs) =
     (case store buf i c of Inl e \<Rightarrow> Inl e | Inr buf' \<Rightarrow> store_str buf' (i + 1) cs)"

definition strcat_buf :: "buffer \<Rightarrow> string \<Rightarrow> error + buffer" where
  "strcat_buf dst src =
     (case read_str dst of Inl e \<Rightarrow> Inl e | Inr s \<Rightarrow> store_str dst (length s) (c_str src))"

subsection \<open>The symbol table\<close>

record MorseMapping =
  character :: char
  code :: string

text \<open>\<^verbatim>\<open>MORSE_TABLE\<close> of \<^verbatim>\<open>main.c\<close>, in the order of the source.\<close>

definition MORSE_TABLE_main :: "MorseMapping list" where
  "MORSE_TABLE_main =
    [\<lparr>character = CHR ''A'', code = ''.-''\<rparr>, \<lparr>character = CHR ''B'', code = ''-...''\<rparr>,
     \<lparr>character = CHR ''C'', code = ''-.-.''\<rparr>, \<lparr>character = CHR ''D'', code = ''-..''\<rparr>,
     \<lparr>character = CHR ''E'', code = ''.''\<rparr>, \<lparr>character = CHR ''F'', code = ''..-.''\<rparr>,
     \<lparr>character = CHR ''G'', code = ''--.''\<rparr>, \<lparr>character = CHR ''H'', code = ''....''\<rparr>,
     \<lparr>character = CHR ''I'', code = ''..''\<rparr>, \<lparr>character = CHR ''J'', code = ''.---''\<rparr>,
     \<lparr>character = CHR ''K'', code = ''-.-''\<rparr>, \<lparr>character = CHR ''L'', code = ''.-..''\<rparr>,
     \<lparr>character = CHR ''M'', code = ''--''\<rparr>, \<lparr>character = CHR ''N'', code = ''-.''\<rparr>,
     \<lparr>character = CHR ''O'', code = ''---''\<rparr>, \<lparr>character = CHR ''P'', code = ''.--.''\<rparr>,
     \<lparr>character = CHR ''Q'', code = ''--.-''\<rparr>, \<lparr>character = CHR ''R'', code = ''.-.''\<rparr>,
     \<lparr>character = CHR ''S'', code = ''...''\<rparr>, \<lparr>character = CHR ''T'', code = ''-''\<rparr>,
     \<lparr>character = CHR ''U'', code = ''..-''\<rparr>, \<lparr>character = CHR ''V'', code = ''...-''\<rparr>,
     \<lparr>character = CHR ''W'', code = ''.--''\<rparr>, \<lparr>character = CHR ''X'', code = ''-..-''\<rparr>,
     \<lparr>character = CHR ''Y'', code = ''-.--''\<rparr>, \<lparr>character = CHR ''Z'', code = ''--..''\<rparr>,
     \<lparr>character = CHR ''0'', code = ''-----''\<rparr>, \<lparr>character = CHR ''1'', code = ''.----''\<rparr>,
     \<lparr>character = CHR ''2'', code = ''..---''\<rparr>, \<lparr>character = CHR ''3'', code = ''...--''\<rparr>,
     \<lparr>character = CHR ''4'', code = ''....-''\<rparr>, \<lparr>character = CHR ''5'', code = ''.....''\<rparr>,
     \<lparr>character = CHR ''6'', code = ''-....''\<rparr>, \<lparr>character = CHR ''7'', code = ''--...''\<rparr>,
     \<lparr>character = CHR ''8'', code = ''--..''\<rparr>, \<lparr>character = CHR ''9'', code = ''---..''\<rparr>,
     \<lparr>character = CHR ''.'', code = ''.-.-.-''\<rparr>, \<lparr>character = CHR '','', code = ''--..--''\<rparr>,
     \<lparr>character = CHR ''?'', code = ''..--..''\<rparr>, \<lparr>character = CHR ''!'', code = ''-.-.--''\<rparr>,
     \<lparr>character = CHR '' '', code = ''/''\<rparr>, \<lparr>character = CHR '':'', code = ''---...''\<rparr>,
     \<lparr>character = CHR '';'', code = ''-.-.-.''\<rparr>, \<lparr>character = CHR ''='', code = ''-...-''\<rparr>,
     \<lparr>character = CHR ''-'', code = ''-....-''\<rparr>, \<lparr>character = CHR ''+'', code = ''.-.-.''\<rparr>,
     \<lparr>character = CHR ''_'', code = ''..--.-''\<rparr>, \<lparr>character = CHR ''('', code = ''-.--.''\<rparr>,
     \<lparr>character = CHR '')'', code = ''-.--.-''\<rparr>, \<lparr>character = CHR ''/'', code = ''-..-.''\<rparr>,
     \<lparr>character = CHR ''@'', code = ''.--.-.''\<rparr>]"
text \<open>\<^verbatim>\<open>MORSE_TABLE\<close> of \<^verbatim>\<open>morse.c\<close>, in the order of the source.\<close>

definition MORSE_TABLE_morse :: "MorseMapping list" where
  "MORSE_TABLE_morse =
    [\<lparr>character = CHR ''A'', code = ''.-''\<rparr>, \<lparr>character = CHR ''B'', code = ''-...''\<rparr>,
     \<lparr>character = CHR ''C'', code = ''-.-.''\<rparr>, \<lparr>character = CHR ''D'', code = ''-..''\<rparr>,
     \<lparr>character = CHR ''E'', code = ''.''\<rparr>, \<lparr>character = CHR ''F'', code = ''..-.''\<rparr>,
     \<lparr>character = CHR ''G'', code = ''--.''\<rparr>, \<lparr>character = CHR ''H'', code = ''....''\<rparr>,
     \<lparr>character = CHR ''I'', code = ''..''\<rparr>, \<lparr>character = CHR ''J'', code = ''.---''\<rparr>,
     \<lparr>character = CHR ''K'', code = ''-.-''\<rparr>, \<lparr>character = CHR ''L'', code = ''.-..''\<rparr>,
     \<lparr>character = CHR ''M'', code = ''--''\<rparr>, \<lparr>character = CHR ''N'', code = ''-.''\<rparr>,
     \<lparr>character = CHR ''O'', code = ''---''\<rparr>, \<lparr>character = CHR ''P'', code = ''.--.''\<rparr>,
     \<lparr>character = CHR ''Q'', code = ''--.-''\<rparr>, \<lparr>character = CHR ''R'', code = ''.-.''\<rparr>,
     \<lparr>character = CHR ''S'', code = ''...''\<rparr>, \<lparr>character = CHR ''T'', code = ''-''\<rparr>,
     \<lparr>character = CHR ''U'', code = ''..-''\<rparr>, \<lparr>character = CHR ''V'', code = ''...-''\<rparr>,
     \<lparr>character = CHR ''W'', code = ''.--''\<rparr>, \<lparr>character = CHR ''X'', code = ''-..-''\<rparr>,
     \<lparr>character = CHR ''Y'', code = ''-.--''\<rparr>, \<lparr>character = CHR ''Z'', code = ''--..''\<rparr>,
     \<lparr>character = CHR ''0'', code = ''-----''\<rparr>, \<lparr>character = CHR ''1'', code = ''.----''\<rparr>,
     \<lparr>character = CHR ''2'', code = ''..---''\<rparr>, \<lparr>character = CHR ''3'', code = ''...--''\<rparr>,
     \<lparr>character = CHR ''4'', code = ''....-''\<rparr>, \<lparr>character = CHR ''5'', code = ''.....''\<rparr>,
     \<lparr>character = CHR ''6'', code = ''-....''\<rparr>, \<lparr>character = CHR ''7'', code = ''--...''\<rparr>,
     \<lparr>character = CHR ''8'', code = ''---..''\<rparr>, \<lparr>character = CHR ''9'', code = ''----.''\<rparr>,
     \<lparr>character = CHR ''.'', code = ''.-.-.-''\<rparr>, \<lparr>character = CHR '','', code = ''--..--''\<rparr>,
     \<lparr>character = CHR '':'', code = ''---...''\<rparr>, \<lparr>character = CHR '';'', code = ''-.-.-.''\<rparr>,
     \<lparr>character = CHR ''?'', code = ''..--..''\<rparr>, \<lparr>character = CHR ''!'', code = ''-.-.--''\<rparr>,
     \<lparr>character = CHR ''='', code = ''-...-''\<rparr>, \<lparr>character = CHR ''-'', code = ''-....-''\<rparr>,
     \<lparr>character = CHR ''+'', code = ''.-.-.''\<rparr>, \<lparr>character = CHR ''_'', code = ''..--.-''\<rparr>,
     \<lparr>character = CHR ''('', code = ''-.--.''\<rparr>, \<lparr>character = CHR '')'', code = ''-.--.-''\<rparr>,
     \<lparr>character = CHR ''/'', code = ''-..-.''\<rparr>, \<lparr>character = CHR ''@'', code = ''.--.-.''\<rparr>,
     \<lparr>character = CHR '' '', code = ''/''\<rparr>]"

text \<open>
  \<^verbatim>\<open>toupper\<close> in the C locale: the 26 lower-case letters go to their upper-case letters and
  every other byte stays.
\<close>

definition toupper :: "char \<Rightarrow> char" where
  "toupper c =
     (case map_of (zip ''abcdefghijklmnopqrstuvwxyz'' ''ABCDEFGHIJKLMNOPQRSTUVWXYZ'') c of
        Some u \<Rightarrow> u
      | None \<Rightarrow> c)"

text \<open>The scan of \<^verbatim>\<open>getCharacterCode\<close>: the code of the first entry whose character is \<open>c\<close>.\<close>

fun find_character :: "MorseMapping list \<Rightarrow> char \<Rightarrow> string option" where
  "find_character [] c = None"
| "find_character (e # es) c = (if character e = c then Some (code e) else find_character es c)"

text \<open>\<^verbatim>\<open>getCharacterCode\<close>; \<open>None\<close> is the \<^verbatim>\<open>NULL\<close> it returns for a character not found.\<close>

definition getCharacterCode :: "MorseMapping list \<Rightarrow> char \<Rightarrow> string option" where
  "getCharacterCode tbl c = find_character tbl (toupper c)"

text \<open>
  \<^verbatim>\<open>getCodeCharacter\<close>: the character of the first entry whose code compares equal to the
  argument, and the NUL byte when there is none.
\<close>

fun getCodeCharacter :: "MorseMapping list \<Rightarrow> string \<Rightarrow> char" where
  "getCodeCharacter [] cd = CHR 0x00"
| "getCodeCharacter (e # es) cd =
     (if strcmp_eq (code e) cd then character e else getCodeCharacter es cd)"

subsection \<open>encodeText\<close>

text \<open>
  The loop of \<^verbatim>\<open>encodeText\<close> over the bytes of \<^verbatim>\<open>text\<close>, with its three variables
  \<^verbatim>\<open>result\<close>, \<^verbatim>\<open>lastWasSpace\<close> and \<^verbatim>\<open>firstChar\<close>.
\<close>

fun encode_loop :: "MorseMapping list \<Rightarrow> bool \<Rightarrow> string \<Rightarrow> bool \<Rightarrow> bool \<Rightarrow> string \<Rightarrow> string" where
  "encode_loop tbl useSlashWordspacer result lastWasSpace firstChar [] = result"
| "encode_loop tbl useSlashWordspacer result lastWasSpace firstChar (currentChar # text) =
     (if currentChar = CHR 0x0A \<or> currentChar = CHR 0x0D then
        encode_loop tbl useSlashWordspacer result lastWasSpace firstChar text
      else if currentChar = CHR '' '' then
        encode_loop tbl useSlashWordspacer
          (if \<not> lastWasSpace \<and> \<not> firstChar
           then (if useSlashWordspacer then strcat result '' / '' else strcat result ''   '')
           else result)
          True firstChar text
      else
        encode_loop tbl useSlashWordspacer
          (let spaced = (if \<not> firstChar \<and> \<not> lastWasSpace then strcat result '' '' else result)
           in case getCharacterCode tbl currentChar of
                Some cd \<Rightarrow> strcat spaced cd
              | None \<Rightarrow> strcat spaced ''*'')
          False False text)"

text \<open>
  The string \<^verbatim>\<open>encodeText\<close> builds, as the loop above: what the function returns whenever
  its buffer was allocated and has room for it (lemma \<open>encodeText_buf_fits\<close>).
\<close>

definition encodeText :: "MorseMapping list \<Rightarrow> bool \<Rightarrow> string \<Rightarrow> string" where
  "encodeText tbl useSlashWordspacer text = encode_loop tbl useSlashWordspacer [] False True (c_str text)"

text \<open>
  \<^verbatim>\<open>encodeText\<close> with its buffer: the same loop on the \<^verbatim>\<open>strlen(text) * 10\<close> bytes that
  \<^verbatim>\<open>malloc\<close> returned, every \<^verbatim>\<open>strcat\<close> a sequence of stores. \<open>malloc_ok n\<close> says whether
  \<^verbatim>\<open>malloc(n)\<close> returns memory; when it does not, \<^verbatim>\<open>morse.c\<close> returns the error
  \<^verbatim>\<open>MORSE_MEMORY_ERROR\<close> and \<^verbatim>\<open>main.c\<close> exits. The first store is
  \<^verbatim>\<open>result[0] = '\0'\<close>; the value returned is the string the buffer holds at the end.
\<close>

fun encode_loop_buf ::
  "MorseMapping list \<Rightarrow> bool \<Rightarrow> buffer \<Rightarrow> bool \<Rightarrow> bool \<Rightarrow> string \<Rightarrow> error + buffer" where
  "encode_loop_buf tbl useSlashWordspacer result lastWasSpace firstChar [] = Inr result"
| "encode_loop_buf tbl useSlashWordspacer result lastWasSpace firstChar (currentChar # text) =
     (if currentChar = CHR 0x0A \<or> currentChar = CHR 0x0D then
        encode_loop_buf tbl useSlashWordspacer result lastWasSpace firstChar text
      else if currentChar = CHR '' '' then
        (case (if \<not> lastWasSpace \<and> \<not> firstChar
               then (if useSlashWordspacer then strcat_buf result '' / ''
                     else strcat_buf result ''   '')
               else Inr result) of
           Inl e \<Rightarrow> Inl e
         | Inr result' \<Rightarrow> encode_loop_buf tbl useSlashWordspacer result' True firstChar text)
      else
        (case (if \<not> firstChar \<and> \<not> lastWasSpace then strcat_buf result '' '' else Inr result) of
           Inl e \<Rightarrow> Inl e
         | Inr spaced \<Rightarrow>
            (case (case getCharacterCode tbl currentChar of
                     Some cd \<Rightarrow> strcat_buf spaced cd
                   | None \<Rightarrow> strcat_buf spaced ''*'') of
               Inl e \<Rightarrow> Inl e
             | Inr result' \<Rightarrow> encode_loop_buf tbl useSlashWordspacer result' False False text)))"

definition encodeText_buf ::
  "(nat \<Rightarrow> bool) \<Rightarrow> MorseMapping list \<Rightarrow> bool \<Rightarrow> string \<Rightarrow> error + string" where
  "encodeText_buf malloc_ok tbl useSlashWordspacer text =
     (let maxBufferSize = strlen text * 10
      in if \<not> malloc_ok maxBufferSize then Inl MemoryError
         else (case store (malloc maxBufferSize) 0 (CHR 0x00) of
                 Inl e \<Rightarrow> Inl e
               | Inr result \<Rightarrow>
                  (case encode_loop_buf tbl useSlashWordspacer result False True (c_str text) of
                     Inl e \<Rightarrow> Inl e
                   | Inr result' \<Rightarrow> read_str result')))"

subsection \<open>decodeText\<close>

record decode_state =
  result :: buffer
  codeBuf :: buffer
  codeBufIndex :: nat
  resultIndex :: nat
  spaceCount :: int

text \<open>
  The statement pair \<^verbatim>\<open>result[resultIndex++] = c; result[resultIndex] = '\0';\<close> that
  \<^verbatim>\<open>decodeText\<close> repeats wherever it appends a character.
\<close>

definition append_char :: "decode_state \<Rightarrow> char \<Rightarrow> error + decode_state" where
  "append_char st c =
     (case store (result st) (resultIndex st) c of
        Inl e \<Rightarrow> Inl e
      | Inr r1 \<Rightarrow>
         (case store r1 (resultIndex st + 1) (CHR 0x00) of
            Inl e \<Rightarrow> Inl e
          | Inr r2 \<Rightarrow> Inr (st\<lparr>result := r2, resultIndex := resultIndex st + 1\<rparr>)))"

text \<open>
  The block that ends a letter: terminate \<^verbatim>\<open>codeBuf\<close>, look the code up, and append the
  character unless the lookup returned NUL.
\<close>

definition lookup_code :: "MorseMapping list \<Rightarrow> decode_state \<Rightarrow> error + decode_state" where
  "lookup_code tbl st =
     (case store (codeBuf st) (codeBufIndex st) (CHR 0x00) of
        Inl e \<Rightarrow> Inl e
      | Inr cb \<Rightarrow>
         (case read_str cb of
            Inl e \<Rightarrow> Inl e
          | Inr cd \<Rightarrow>
             (let c = getCodeCharacter tbl cd
              in if c \<noteq> CHR 0x00 then append_char (st\<lparr>codeBuf := cb\<rparr>) c
                 else Inr (st\<lparr>codeBuf := cb\<rparr>))))"

text \<open>One iteration of the loop of \<^verbatim>\<open>decodeText\<close> on the byte \<^verbatim>\<open>morse[i]\<close>.\<close>

definition decode_step :: "MorseMapping list \<Rightarrow> decode_state \<Rightarrow> char \<Rightarrow> error + decode_state" where
  "decode_step tbl st c =
     (if c = CHR 0x0A \<or> c = CHR 0x0D then Inr st
      else if c = CHR '' '' then
        (let st1 = st\<lparr>spaceCount := spaceCount st + 1\<rparr>
         in if spaceCount st1 = 1 \<and> codeBufIndex st1 > 0 then
              (case lookup_code tbl st1 of
                 Inl e \<Rightarrow> Inl e
               | Inr st2 \<Rightarrow> Inr (st2\<lparr>codeBufIndex := 0\<rparr>))
            else if spaceCount st1 = 3 then
              (case append_char st1 (CHR '' '') of
                 Inl e \<Rightarrow> Inl e
               | Inr st2 \<Rightarrow> Inr (st2\<lparr>spaceCount := 0\<rparr>))
            else Inr st1)
      else if c = CHR ''/'' then
        (case (if codeBufIndex st > 0 then
                 (case lookup_code tbl st of
                    Inl e \<Rightarrow> Inl e
                  | Inr st1 \<Rightarrow> Inr (st1\<lparr>codeBufIndex := 0\<rparr>))
               else Inr st) of
           Inl e \<Rightarrow> Inl e
         | Inr st1 \<Rightarrow>
            (case append_char st1 (CHR '' '') of
               Inl e \<Rightarrow> Inl e
             | Inr st2 \<Rightarrow> Inr (st2\<lparr>spaceCount := 0\<rparr>)))
      else
        (let st1 = st\<lparr>spaceCount := 0\<rparr>
         in if codeBufIndex st1 < 20 - 1 then
              (case store (codeBuf st1) (codeBufIndex st1) c of
                 Inl e \<Rightarrow> Inl e
               | Inr cb \<Rightarrow> Inr (st1\<lparr>codeBuf := cb, codeBufIndex := codeBufIndex st1 + 1\<rparr>))
            else Inr st1))"

fun decode_loop :: "MorseMapping list \<Rightarrow> decode_state \<Rightarrow> string \<Rightarrow> error + decode_state" where
  "decode_loop tbl st [] = Inr st"
| "decode_loop tbl st (c # morse) =
     (case decode_step tbl st c of
        Inl e \<Rightarrow> Inl e
      | Inr st' \<Rightarrow> decode_loop tbl st' morse)"

text \<open>
  \<^verbatim>\<open>decodeText\<close>: the buffer of \<^verbatim>\<open>strlen(morse) + 1\<close> bytes, the 20 zeroed bytes of
  \<^verbatim>\<open>codeBuf\<close>, the loop, the last code, and the string the returned pointer denotes.
\<close>

definition decode_init :: "nat \<Rightarrow> error + decode_state" where
  "decode_init maxOutputSize =
     (case store (malloc maxOutputSize) 0 (CHR 0x00) of
        Inl e \<Rightarrow> Inl e
      | Inr r \<Rightarrow>
         Inr \<lparr>result = r, codeBuf = replicate 20 (Some (CHR 0x00)),
              codeBufIndex = 0, resultIndex = 0, spaceCount = 0\<rparr>)"

definition decodeText :: "MorseMapping list \<Rightarrow> string \<Rightarrow> error + string" where
  "decodeText tbl morse =
     (case decode_init (strlen morse + 1) of
        Inl e \<Rightarrow> Inl e
      | Inr st0 \<Rightarrow>
         (case decode_loop tbl st0 (c_str morse) of
            Inl e \<Rightarrow> Inl e
          | Inr st \<Rightarrow>
             (case (if codeBufIndex st > 0 then lookup_code tbl st else Inr st) of
                Inl e \<Rightarrow> Inl e
              | Inr st' \<Rightarrow> read_str (result st'))))"


subsection \<open>The decoder as a function on strings\<close>

text \<open>
  For the proofs, the loop of \<^verbatim>\<open>decodeText\<close> once more, on the three values its state
  stands for: the text decoded so far, the code being collected and the space counter.
  Lemma \<open>decodeText_eq\<close> below shows that \<open>decodeText\<close> computes \<open>decode_fun\<close>, with
  every buffer access in bounds.
\<close>

definition found :: "MorseMapping list \<Rightarrow> string \<Rightarrow> string" where
  "found tbl cd = (if getCodeCharacter tbl cd = CHR 0x00 then [] else [getCodeCharacter tbl cd])"

definition flush :: "MorseMapping list \<Rightarrow> string \<Rightarrow> string" where
  "flush tbl pend = (if pend = [] then [] else found tbl pend)"

fun dec_step :: "MorseMapping list \<Rightarrow> string \<times> string \<times> int \<Rightarrow> char \<Rightarrow> string \<times> string \<times> int" where
  "dec_step tbl (out, pend, sc) c =
     (if c = CHR 0x0A \<or> c = CHR 0x0D then (out, pend, sc)
      else if c = CHR '' '' then
        (if sc + 1 = 1 \<and> pend \<noteq> [] then (out @ found tbl pend, [], sc + 1)
         else if sc + 1 = 3 then (out @ '' '', pend, 0)
         else (out, pend, sc + 1))
      else if c = CHR ''/'' then (out @ flush tbl pend @ '' '', [], 0)
      else (out, if length pend < 19 then pend @ [c] else pend, 0))"

definition dec_finish :: "MorseMapping list \<Rightarrow> string \<times> string \<times> int \<Rightarrow> string" where
  "dec_finish tbl a = (case a of (out, pend, sc) \<Rightarrow> out @ flush tbl pend)"

definition decode_fun :: "MorseMapping list \<Rightarrow> string \<Rightarrow> string" where
  "decode_fun tbl morse = dec_finish tbl (foldl (dec_step tbl) ([], [], 0) morse)"

text \<open>What a concrete state stands for: \<open>rel n st (out, pend, sc)\<close>.\<close>

definition rel :: "nat \<Rightarrow> decode_state \<Rightarrow> string \<times> string \<times> int \<Rightarrow> bool" where
  "rel n st a =
     (case a of (out, pend, sc) \<Rightarrow>
        length (result st) = n \<and> resultIndex st = length out \<and> length out < n \<and>
        take (length out) (result st) = map Some out \<and>
        result st ! length out = Some (CHR 0x00) \<and> CHR 0x00 \<notin> set out \<and>
        length (codeBuf st) = 20 \<and> codeBufIndex st = length pend \<and> length pend \<le> 19 \<and>
        take (length pend) (codeBuf st) = map Some pend \<and> CHR 0x00 \<notin> set pend \<and>
        spaceCount st = sc)"

text \<open>
  The invariant of the space counter, and the room a state still needs in \<^verbatim>\<open>result\<close>: the
  characters it holds and one more for a pending code.
\<close>

definition dec_inv :: "string \<times> string \<times> int \<Rightarrow> bool" where
  "dec_inv a = (case a of (out, pend, sc) \<Rightarrow> 0 \<le> sc \<and> sc \<le> 2 \<and> (sc = 0 \<or> pend = []))"

definition need :: "string \<times> string \<times> int \<Rightarrow> nat" where
  "need a = (case a of (out, pend, sc) \<Rightarrow> length out + (if pend = [] then 0 else 1))"

text \<open>The buffer \<open>buf\<close> holds the terminated string \<open>s\<close>.\<close>

definition holds :: "buffer \<Rightarrow> string \<Rightarrow> bool" where
  "holds buf s =
     (length s < length buf \<and> take (length s) buf = map Some s \<and>
      buf ! length s = Some (CHR 0x00) \<and> CHR 0x00 \<notin> set s)"

subsection \<open>Vocabulary of the statements\<close>

text \<open>
  The classes of bytes the two loops distinguish, the two strings \<^verbatim>\<open>encodeText\<close> appends
  (a word separator, and the code of a character or the star), and the strings the spec
  speaks of: tokens joined by a separator, and the supported characters.
\<close>

definition is_skip :: "char \<Rightarrow> bool" where
  "is_skip c = (c = CHR 0x0A \<or> c = CHR 0x0D)"

definition is_plain :: "char \<Rightarrow> bool" where
  "is_plain c = (\<not> is_skip c \<and> c \<noteq> CHR '' '' \<and> c \<noteq> CHR 0x00)"

definition is_code_byte :: "char \<Rightarrow> bool" where
  "is_code_byte c = (is_plain c \<and> c \<noteq> CHR ''/'')"

definition wordsep :: "bool \<Rightarrow> string" where
  "wordsep sl = (if sl then '' / '' else ''   '')"

definition symbol :: "MorseMapping list \<Rightarrow> char \<Rightarrow> string" where
  "symbol tbl c = (case getCharacterCode tbl c of Some cd \<Rightarrow> c_str cd | None \<Rightarrow> ''*'')"

fun join :: "string \<Rightarrow> string list \<Rightarrow> string" where
  "join sep [] = []"
| "join sep [w] = w"
| "join sep (w # v # ws) = w @ sep @ join sep (v # ws)"

text \<open>
  A text without its \<^verbatim>\<open>\n\<close> and \<^verbatim>\<open>\r\<close> bytes, and the places where \<^verbatim>\<open>decodeText\<close> starts
  a code: the start of the input and after a space or a slash, with any \<^verbatim>\<open>\n\<close> and \<^verbatim>\<open>\r\<close>
  in between.
\<close>

definition strip_newlines :: "string \<Rightarrow> string" where
  "strip_newlines m = filter (\<lambda>c. \<not> is_skip c) m"

definition at_code_start :: "string \<Rightarrow> bool" where
  "at_code_start p =
     (strip_newlines p = [] \<or> last (strip_newlines p) = CHR '' '' \<or>
      last (strip_newlines p) = CHR ''/'')"

text \<open>The supported characters, as the help text of the program lists them.\<close>

definition supported :: string where
  "supported = ''ABCDEFGHIJKLMNOPQRSTUVWXYZabcdefghijklmnopqrstuvwxyz0123456789.,:;?!=-+_()/@ ''"

definition space_entry :: MorseMapping where
  "space_entry = \<lparr>character = CHR '' '', code = ''/''\<rparr>"

section \<open>C strings\<close>

lemma c_str_no_nul: "CHR 0x00 \<notin> set (c_str s)"
  unfolding c_str_def by (induction s) auto

lemma c_str_id: "CHR 0x00 \<notin> set s \<Longrightarrow> c_str s = s"
  unfolding c_str_def by (induction s) auto

lemma c_str_append: "CHR 0x00 \<notin> set a \<Longrightarrow> c_str (a @ b) = a @ c_str b"
  unfolding c_str_def by (induction a) auto

lemma c_str_append_nul: "CHR 0x00 \<in> set a \<Longrightarrow> c_str (a @ b) = c_str a"
  unfolding c_str_def by (induction a) auto

lemma c_str_subset: "set (c_str s) \<subseteq> set s"
  unfolding c_str_def by (auto dest: set_takeWhileD)

lemma c_str_filter:
  "c_str (filter (\<lambda>c. \<not> is_skip c) t) = filter (\<lambda>c. \<not> is_skip c) (c_str t)"
  unfolding c_str_def by (induction t) (auto simp: is_skip_def)

lemma strlen_le: "strlen m \<le> length m"
  by (simp add: strlen_def c_str_def length_takeWhile_le)

section \<open>The decoder computes \<open>decode_fun\<close> within its buffers\<close>

lemma read_str_prefix:
  "CHR 0x00 \<notin> set s \<Longrightarrow> read_str (map Some s @ Some (CHR 0x00) # cells) = Inr s"
  by (induction s) auto

lemma read_str_take:
  assumes "k < length b" "take k b = map Some s" "b ! k = Some (CHR 0x00)" "CHR 0x00 \<notin> set s"
  shows "read_str b = Inr s"
proof -
  have "b = take k b @ b ! k # drop (Suc k) b"
    using assms(1) by (rule id_take_nth_drop)
  then have "b = map Some s @ Some (CHR 0x00) # drop (Suc k) b"
    using assms(2,3) by simp
  then show ?thesis
    using read_str_prefix [OF assms(4)] by metis
qed

lemma length_found: "length (found tbl cd) \<le> 1"
  by (simp add: found_def)

lemma length_flush: "length (flush tbl pend) \<le> (if pend = [] then 0 else 1)"
  using length_found [of tbl pend] by (simp add: flush_def)

lemma append_char_rel:
  assumes "length (result st) = n" "resultIndex st = length out" "Suc (length out) < n"
    "take (length out) (result st) = map Some out"
  shows "\<exists>st'. append_char st c = Inr st' \<and> length (result st') = n \<and>
           resultIndex st' = Suc (length out) \<and>
           take (Suc (length out)) (result st') = map Some (out @ [c]) \<and>
           result st' ! Suc (length out) = Some (CHR 0x00) \<and>
           codeBuf st' = codeBuf st \<and> codeBufIndex st' = codeBufIndex st \<and>
           spaceCount st' = spaceCount st"
  using assms by (simp add: append_char_def store_def take_Suc_conv_app_nth)

lemma lookup_code_rel:
  assumes r: "rel n st (out, pend, sc)" and room: "Suc (length out) < n"
  shows "\<exists>st'. lookup_code tbl st = Inr st' \<and> rel n st' (out @ found tbl pend, pend, sc)"
proof -
  let ?cb = "(codeBuf st)[length pend := Some (CHR 0x00)]"
  from r have len: "length (codeBuf st) = 20" and idx: "codeBufIndex st = length pend"
    and le: "length pend \<le> 19" and tk: "take (length pend) (codeBuf st) = map Some pend"
    and nn: "CHR 0x00 \<notin> set pend"
    by (simp_all add: rel_def)
  have st: "store (codeBuf st) (codeBufIndex st) (CHR 0x00) = Inr ?cb"
    using len idx le by (simp add: store_def)
  have rd: "read_str ?cb = Inr pend"
    by (rule read_str_take [where k = "length pend"]) (use len le tk nn in simp_all)
  have r1: "rel n (st\<lparr>codeBuf := ?cb\<rparr>) (out, pend, sc)"
    using r by (simp add: rel_def)
  show ?thesis
  proof (cases "getCodeCharacter tbl pend = CHR 0x00")
    case True
    then show ?thesis
      using st rd r1 by (simp add: lookup_code_def found_def)
  next
    case False
    from r have a: "length (result st) = n" "resultIndex st = length out"
      "take (length out) (result st) = map Some out" "CHR 0x00 \<notin> set out"
      by (simp_all add: rel_def)
    obtain st' where ap: "append_char (st\<lparr>codeBuf := ?cb\<rparr>) (getCodeCharacter tbl pend) = Inr st'"
      and b: "length (result st') = n" "resultIndex st' = Suc (length out)"
        "take (Suc (length out)) (result st') = map Some (out @ [getCodeCharacter tbl pend])"
        "result st' ! Suc (length out) = Some (CHR 0x00)"
        "codeBuf st' = ?cb" "codeBufIndex st' = codeBufIndex st" "spaceCount st' = spaceCount st"
      using append_char_rel [of "st\<lparr>codeBuf := ?cb\<rparr>" n out "getCodeCharacter tbl pend"] a room
      by auto
    have "rel n st' (out @ [getCodeCharacter tbl pend], pend, sc)"
      using b r1 room False a(4) by (simp add: rel_def)
    then show ?thesis
      using st rd ap False by (simp add: lookup_code_def found_def)
  qed
qed

lemma emit_space_rel:
  assumes r: "rel n st (out, pend, sc)" and room: "Suc (length out) < n"
  shows "\<exists>st'. append_char st (CHR '' '') = Inr st' \<and> rel n st' (out @ '' '', pend, sc)"
proof -
  from r have a: "length (result st) = n" "resultIndex st = length out"
    "take (length out) (result st) = map Some out"
    by (simp_all add: rel_def)
  obtain st' where ap: "append_char st (CHR '' '') = Inr st'"
    and b: "length (result st') = n" "resultIndex st' = Suc (length out)"
      "take (Suc (length out)) (result st') = map Some (out @ '' '')"
      "result st' ! Suc (length out) = Some (CHR 0x00)"
      "codeBuf st' = codeBuf st" "codeBufIndex st' = codeBufIndex st" "spaceCount st' = spaceCount st"
    using append_char_rel [of st n out "CHR '' ''"] a room by auto
  have "rel n st' (out @ '' '', pend, sc)"
    using b r room by (simp add: rel_def)
  then show ?thesis using ap by simp
qed

lemma rel_reset_code: "rel n st (out, pend, sc) \<Longrightarrow> rel n (st\<lparr>codeBufIndex := 0\<rparr>) (out, [], sc)"
  by (simp add: rel_def)

lemma rel_set_count: "rel n st (out, pend, sc) \<Longrightarrow> rel n (st\<lparr>spaceCount := k\<rparr>) (out, pend, k)"
  by (simp add: rel_def)

lemma rel_push:
  assumes r: "rel n st (out, pend, sc)" and lt: "length pend < 19" and c: "c \<noteq> CHR 0x00"
  shows "\<exists>cb. store (codeBuf st) (codeBufIndex st) c = Inr cb \<and>
           rel n (st\<lparr>codeBuf := cb, codeBufIndex := codeBufIndex st + 1\<rparr>) (out, pend @ [c], sc)"
  using assms by (simp add: rel_def store_def take_Suc_conv_app_nth)

lemma dec_step_inv: "dec_inv a \<Longrightarrow> dec_inv (dec_step tbl a c)"
  by (cases a) (auto simp: dec_inv_def)

lemma dec_step_need: "dec_inv a \<Longrightarrow> need (dec_step tbl a c) \<le> need a + 1"
  using length_found [of tbl "fst (snd a)"]
  by (cases a) (auto simp: dec_inv_def need_def flush_def)

lemma decode_step_rel:
  assumes r: "rel n st a" and i: "dec_inv a" and c: "c \<noteq> CHR 0x00" and room: "need a + 1 < n"
  shows "\<exists>st'. decode_step tbl st c = Inr st' \<and> rel n st' (dec_step tbl a c)"
proof -
  obtain out pend sc where a: "a = (out, pend, sc)"
    by (cases a)
  note r = r [unfolded a]
  from r have idx: "codeBufIndex st = length pend" and cnt: "spaceCount st = sc"
    by (simp_all add: rel_def)
  from room have room1: "Suc (length out) < n"
    by (simp add: a need_def split: if_splits)
  consider (skip) "c = CHR 0x0A \<or> c = CHR 0x0D"
    | (space) "c = CHR '' ''"
    | (slash) "c = CHR ''/''"
    | (other) "c \<noteq> CHR 0x0A" "c \<noteq> CHR 0x0D" "c \<noteq> CHR '' ''" "c \<noteq> CHR ''/''"
    by blast
  then show ?thesis
  proof cases
    case skip
    then show ?thesis using r by (auto simp: decode_step_def a)
  next
    case space
    let ?st1 = "st\<lparr>spaceCount := spaceCount st + 1\<rparr>"
    have r1: "rel n ?st1 (out, pend, sc + 1)"
      using rel_set_count [OF r, of "spaceCount st + 1"] cnt by simp
    have f1: "spaceCount ?st1 = sc + 1" "codeBufIndex ?st1 = length pend"
      using idx cnt by simp_all
    consider (letter) "sc + 1 = 1" "pend \<noteq> []"
      | (word) "\<not> (sc + 1 = 1 \<and> pend \<noteq> [])" "sc + 1 = 3"
      | (none) "\<not> (sc + 1 = 1 \<and> pend \<noteq> [])" "sc + 1 \<noteq> 3"
      by blast
    then show ?thesis
    proof cases
      case letter
      obtain st2 where l: "lookup_code tbl ?st1 = Inr st2"
        and r2: "rel n st2 (out @ found tbl pend, pend, sc + 1)"
        using lookup_code_rel [OF r1 room1] by blast
      have "rel n (st2\<lparr>codeBufIndex := 0\<rparr>) (out @ found tbl pend, [], sc + 1)"
        by (rule rel_reset_code [OF r2])
      then show ?thesis
        using space letter l f1 by (simp add: decode_step_def a Let_def)
    next
      case word
      obtain st2 where l: "append_char ?st1 (CHR '' '') = Inr st2"
        and r2: "rel n st2 (out @ '' '', pend, sc + 1)"
        using emit_space_rel [OF r1 room1] by blast
      have "rel n (st2\<lparr>spaceCount := 0\<rparr>) (out @ '' '', pend, 0)"
        by (rule rel_set_count [OF r2])
      then show ?thesis
        using space word l f1 by (simp add: decode_step_def a Let_def)
    next
      case none
      have "decode_step tbl st c = Inr ?st1"
        using space none f1 by (auto simp: decode_step_def Let_def)
      moreover have "dec_step tbl a c = (out, pend, sc + 1)"
        using space none by (auto simp: a)
      ultimately show ?thesis
        using r1 by simp
    qed
  next
    case slash
    have "\<exists>st1. (if codeBufIndex st > 0 then
                 (case lookup_code tbl st of
                    Inl e \<Rightarrow> Inl e
                  | Inr st1 \<Rightarrow> Inr (st1\<lparr>codeBufIndex := 0\<rparr>))
               else Inr st) = Inr st1 \<and> rel n st1 (out @ flush tbl pend, [], sc)"
    proof (cases "pend = []")
      case True
      then show ?thesis using r idx by (simp add: flush_def)
    next
      case False
      obtain st2 where l: "lookup_code tbl st = Inr st2"
        and r2: "rel n st2 (out @ found tbl pend, pend, sc)"
        using lookup_code_rel [OF r room1] by blast
      have "rel n (st2\<lparr>codeBufIndex := 0\<rparr>) (out @ found tbl pend, [], sc)"
        by (rule rel_reset_code [OF r2])
      then show ?thesis using False l idx by (simp add: flush_def)
    qed
    then obtain st1 where e1: "(if codeBufIndex st > 0 then
                 (case lookup_code tbl st of
                    Inl e \<Rightarrow> Inl e
                  | Inr st1 \<Rightarrow> Inr (st1\<lparr>codeBufIndex := 0\<rparr>))
               else Inr st) = Inr st1"
      and r1: "rel n st1 (out @ flush tbl pend, [], sc)"
      by blast
    have room2: "Suc (length (out @ flush tbl pend)) < n"
      using room length_flush [of tbl pend] by (simp add: a need_def split: if_splits)
    obtain st2 where l: "append_char st1 (CHR '' '') = Inr st2"
      and r2: "rel n st2 ((out @ flush tbl pend) @ '' '', [], sc)"
      using emit_space_rel [OF r1 room2] by blast
    have "rel n (st2\<lparr>spaceCount := 0\<rparr>) ((out @ flush tbl pend) @ '' '', [], 0)"
      by (rule rel_set_count [OF r2])
    then show ?thesis
      using slash l by (simp add: decode_step_def a e1 del: One_nat_def)
  next
    case other
    let ?st1 = "st\<lparr>spaceCount := 0\<rparr>"
    have r1: "rel n ?st1 (out, pend, 0)"
      by (rule rel_set_count [OF r])
    show ?thesis
    proof (cases "length pend < 19")
      case True
      obtain cb where s: "store (codeBuf ?st1) (codeBufIndex ?st1) c = Inr cb"
        and r2: "rel n (?st1\<lparr>codeBuf := cb, codeBufIndex := codeBufIndex ?st1 + 1\<rparr>) (out, pend @ [c], 0)"
        using rel_push [OF r1 True c] by blast
      then show ?thesis
        using other True idx by (simp add: decode_step_def a Let_def)
    next
      case False
      then show ?thesis
        using other r1 idx by (simp add: decode_step_def a Let_def)
    qed
  qed
qed

lemma decode_loop_rel:
  "rel n st a \<Longrightarrow> dec_inv a \<Longrightarrow> CHR 0x00 \<notin> set morse \<Longrightarrow> need a + length morse < n \<Longrightarrow>
   \<exists>st'. decode_loop tbl st morse = Inr st' \<and> rel n st' (foldl (dec_step tbl) a morse) \<and>
         dec_inv (foldl (dec_step tbl) a morse) \<and>
         need (foldl (dec_step tbl) a morse) \<le> need a + length morse"
proof (induction morse arbitrary: st a)
  case Nil
  then show ?case by simp
next
  case (Cons c morse)
  from Cons.prems have c: "c \<noteq> CHR 0x00" and nn: "CHR 0x00 \<notin> set morse"
    and room: "need a + 1 < n"
    by auto
  obtain st1 where s: "decode_step tbl st c = Inr st1" and r1: "rel n st1 (dec_step tbl a c)"
    using decode_step_rel [OF Cons.prems(1,2) c room] by blast
  have i1: "dec_inv (dec_step tbl a c)"
    by (rule dec_step_inv [OF Cons.prems(2)])
  have n1: "need (dec_step tbl a c) \<le> need a + 1"
    by (rule dec_step_need [OF Cons.prems(2)])
  then have room1: "need (dec_step tbl a c) + length morse < n"
    using Cons.prems(4) by simp
  obtain st' where "decode_loop tbl st1 morse = Inr st'"
    "rel n st' (foldl (dec_step tbl) (dec_step tbl a c) morse)"
    "dec_inv (foldl (dec_step tbl) (dec_step tbl a c) morse)"
    "need (foldl (dec_step tbl) (dec_step tbl a c) morse) \<le> need (dec_step tbl a c) + length morse"
    using Cons.IH [OF r1 i1 nn room1] by blast
  then show ?case
    using s n1 by simp
qed

lemma decode_init_rel:
  "\<exists>st0. decode_init (Suc k) = Inr st0 \<and> rel (Suc k) st0 ([], [], 0)"
  by (simp add: decode_init_def malloc_def store_def rel_def)

lemma dec_finish_rel:
  assumes r: "rel n st a" and room: "need a < n"
  shows "\<exists>st'. (if codeBufIndex st > 0 then lookup_code tbl st else Inr st) = Inr st' \<and>
           read_str (result st') = Inr (dec_finish tbl a)"
proof -
  obtain out pend sc where a: "a = (out, pend, sc)"
    by (cases a)
  note r = r [unfolded a]
  have rd: "read_str (result s) = Inr o'" if "rel n s (o', p, k)" for s o' p k
    using that by (intro read_str_take [where k = "length o'"]) (simp_all add: rel_def)
  show ?thesis
  proof (cases "pend = []")
    case True
    then show ?thesis
      using r rd [OF r] by (simp add: a dec_finish_def flush_def rel_def)
  next
    case False
    then have "Suc (length out) < n"
      using room by (simp add: a need_def)
    then obtain st2 where l: "lookup_code tbl st = Inr st2"
      and r2: "rel n st2 (out @ found tbl pend, pend, sc)"
      using lookup_code_rel [OF r] by blast
    have "codeBufIndex st > 0" using r False by (simp add: rel_def)
    then show ?thesis
      using False l rd [OF r2] by (simp add: a dec_finish_def flush_def)
  qed
qed

lemma decode_loop_init:
  "\<exists>st0 st. decode_init (strlen morse + 1) = Inr st0 \<and>
      decode_loop tbl st0 (c_str morse) = Inr st \<and>
      rel (strlen morse + 1) st (foldl (dec_step tbl) ([], [], 0) (c_str morse)) \<and>
      need (foldl (dec_step tbl) ([], [], 0) (c_str morse)) \<le> strlen morse"
proof -
  let ?m = "c_str morse"
  let ?n = "Suc (length ?m)"
  obtain st0 where i: "decode_init ?n = Inr st0" and r0: "rel ?n st0 ([], [], 0)"
    using decode_init_rel by blast
  have "need ([], [], 0) + length ?m < ?n" "dec_inv ([], [], 0)"
    by (simp_all add: need_def dec_inv_def)
  then obtain st where l: "decode_loop tbl st0 ?m = Inr st"
    and r: "rel ?n st (foldl (dec_step tbl) ([], [], 0) ?m)"
    and nd: "need (foldl (dec_step tbl) ([], [], 0) ?m) \<le> need ([], [], 0) + length ?m"
    using decode_loop_rel [OF r0 _ c_str_no_nul, where tbl = tbl] by blast
  have "need (foldl (dec_step tbl) ([], [], 0) ?m) \<le> length ?m"
    using nd by (simp add: need_def)
  then show ?thesis
    using i l r by (simp add: strlen_def)
qed

lemma decodeText_eq: "decodeText tbl morse = Inr (decode_fun tbl (c_str morse))"
proof -
  let ?a = "foldl (dec_step tbl) ([], [], 0) (c_str morse)"
  obtain st0 st where i: "decode_init (strlen morse + 1) = Inr st0"
    and l: "decode_loop tbl st0 (c_str morse) = Inr st"
    and r: "rel (strlen morse + 1) st ?a" and nd: "need ?a \<le> strlen morse"
    using decode_loop_init by blast
  from nd have "need ?a < strlen morse + 1"
    by simp
  then obtain st' where "(if codeBufIndex st > 0 then lookup_code tbl st else Inr st) = Inr st'"
    "read_str (result st') = Inr (dec_finish tbl ?a)"
    using dec_finish_rel [OF r] by blast
  then show ?thesis
    using i l by (simp add: decodeText_def decode_fun_def)
qed

lemma foldl_dec_step_need:
  "dec_inv a \<Longrightarrow>
   dec_inv (foldl (dec_step tbl) a m) \<and> need (foldl (dec_step tbl) a m) \<le> need a + length m"
proof (induction m arbitrary: a)
  case Nil
  then show ?case by simp
next
  case (Cons c m)
  have i: "dec_inv (dec_step tbl a c)"
    by (rule dec_step_inv [OF Cons.prems])
  have "need (dec_step tbl a c) \<le> need a + 1"
    by (rule dec_step_need [OF Cons.prems])
  then show ?case
    using Cons.IH [OF i] by simp
qed

lemma length_dec_finish: "length (dec_finish tbl a) \<le> need a"
  using length_flush [of tbl "fst (snd a)"]
  by (cases a) (simp add: dec_finish_def need_def)

lemma length_decode_fun: "length (decode_fun tbl m) \<le> length m"
proof -
  have "need (foldl (dec_step tbl) ([], [], 0) m) \<le> need ([], [], 0) + length m"
    using foldl_dec_step_need [of "([], [], 0)" tbl m] by (simp add: dec_inv_def)
  then show ?thesis
    using length_dec_finish [of tbl "foldl (dec_step tbl) ([], [], 0) m"]
    by (simp add: decode_fun_def need_def)
qed

section \<open>The decoder on code runs, slashes and tokens\<close>

lemma dec_step_code_byte:
  "is_code_byte c \<Longrightarrow>
   dec_step tbl (out, pend, sc) c = (out, if length pend < 19 then pend @ [c] else pend, 0)"
  by (simp add: is_code_byte_def is_plain_def is_skip_def)

lemma dec_run_code:
  "list_all is_code_byte w \<Longrightarrow> w \<noteq> [] \<Longrightarrow> length pend \<le> 19 \<Longrightarrow>
   foldl (dec_step tbl) (out, pend, sc) w = (out, take 19 (pend @ w), 0)"
proof (induction w arbitrary: pend sc)
  case Nil
  then show ?case by simp
next
  case (Cons c w)
  from Cons.prems have c: "is_code_byte c" and w: "list_all is_code_byte w"
    by simp_all
  let ?p = "if length pend < 19 then pend @ [c] else pend"
  have s: "dec_step tbl (out, pend, sc) c = (out, ?p, 0)"
    by (rule dec_step_code_byte [OF c])
  have p: "length ?p \<le> 19" "take 19 (?p @ w) = take 19 (pend @ c # w)" "take 19 ?p = take 19 (pend @ [c])"
    using Cons.prems(3) by (auto simp: take_Cons')
  show ?case
  proof (cases "w = []")
    case True
    then show ?thesis using s p by (simp del: dec_step.simps)
  next
    case False
    then show ?thesis
      using Cons.IH [OF w False p(1), of 0] s p by (simp del: dec_step.simps)
  qed
qed

text \<open>The output so far is only ever extended.\<close>

lemma dec_step_shift:
  "dec_step tbl (o1 @ out, pend, sc) c =
   (case dec_step tbl (out, pend, sc) c of (out', pend', sc') \<Rightarrow> (o1 @ out', pend', sc'))"
  by simp

lemma dec_run_shift:
  "foldl (dec_step tbl) (o1 @ out, pend, sc) m =
   (case foldl (dec_step tbl) (out, pend, sc) m of (out', pend', sc') \<Rightarrow> (o1 @ out', pend', sc'))"
proof (induction m arbitrary: out pend sc)
  case Nil
  then show ?case by simp
next
  case (Cons c m)
  obtain out' pend' sc' where s: "dec_step tbl (out, pend, sc) c = (out', pend', sc')"
    by (cases "dec_step tbl (out, pend, sc) c")
  then have "dec_step tbl (o1 @ out, pend, sc) c = (o1 @ out', pend', sc')"
    using dec_step_shift [of tbl o1 out pend sc c] by simp
  then show ?case
    using s Cons.IH [of out' pend' sc'] by (simp del: dec_step.simps)
qed

lemma dec_finish_shift:
  "dec_finish tbl (foldl (dec_step tbl) (o1, [], 0) m) = o1 @ decode_fun tbl m"
  using dec_run_shift [of tbl o1 "[]" "[]" 0 m]
  by (simp add: decode_fun_def dec_finish_def split: prod.splits)

lemma decode_fun_slash:
  "decode_fun tbl (p @ CHR ''/'' # q) = decode_fun tbl p @ '' '' @ decode_fun tbl q"
proof -
  obtain out pend sc where s: "foldl (dec_step tbl) ([], [], 0) p = (out, pend, sc)"
    by (cases "foldl (dec_step tbl) ([], [], 0) p")
  have "foldl (dec_step tbl) ([], [], 0) (p @ CHR ''/'' # q) =
        foldl (dec_step tbl) (out @ flush tbl pend @ '' '', [], 0) q"
    by (simp add: s)
  then have "decode_fun tbl (p @ CHR ''/'' # q) = (out @ flush tbl pend @ '' '') @ decode_fun tbl q"
    using dec_finish_shift [of tbl "out @ flush tbl pend @ '' ''" q] by (simp add: decode_fun_def)
  moreover have "decode_fun tbl p = out @ flush tbl pend"
    by (simp add: decode_fun_def dec_finish_def s)
  ultimately show ?thesis by simp
qed

text \<open>After a space or a slash no code is pending.\<close>

lemma dec_step_sep_pend:
  assumes "dec_inv a" "c = CHR '' '' \<or> c = CHR ''/''"
  shows "\<exists>out sc. dec_step tbl a c = (out, [], sc)"
  using assms by (cases a) (auto simp: dec_inv_def)

lemma dec_run_boundary:
  assumes "a = [] \<or> last a = CHR '' '' \<or> last a = CHR ''/''"
  shows "\<exists>out sc. foldl (dec_step tbl) ([], [], 0) a = (out, [], sc)"
proof (cases "a = []")
  case True
  then show ?thesis by simp
next
  case False
  then obtain xs c where a: "a = xs @ [c]"
    by (metis append_butlast_last_id)
  then have c: "c = CHR '' '' \<or> c = CHR ''/''"
    using assms False by simp
  have "dec_inv (foldl (dec_step tbl) ([], [], 0) xs)"
    using foldl_dec_step_need [of "([], [], 0)" tbl xs] by (simp add: dec_inv_def)
  then show ?thesis
    using dec_step_sep_pend [OF _ c, of "foldl (dec_step tbl) ([], [], 0) xs" tbl]
    by (simp add: a)
qed

lemma code_byte_no_nul: "list_all is_code_byte w \<Longrightarrow> CHR 0x00 \<notin> set w"
  by (auto simp: list_all_iff is_code_byte_def is_plain_def)

lemma dec_tokens:
  "ws \<noteq> [] \<Longrightarrow> list_all (\<lambda>w. w \<noteq> [] \<and> list_all is_code_byte w) ws \<Longrightarrow>
   dec_finish tbl (foldl (dec_step tbl) (out, [], sc) (join '' '' ws)) =
   out @ concat (map (\<lambda>w. found tbl (take 19 w)) ws)"
proof (induction "'' ''" ws arbitrary: out sc rule: join.induct)
  case 1
  then show ?case by simp
next
  case (2 w)
  then have w: "list_all is_code_byte w" "w \<noteq> []"
    by simp_all
  show ?case
    using dec_run_code [OF w, of "[]" tbl out sc] w(2)
    by (simp add: dec_finish_def flush_def)
next
  case (3 w v ws)
  then have w: "list_all is_code_byte w" "w \<noteq> []"
    and r: "list_all (\<lambda>w. w \<noteq> [] \<and> list_all is_code_byte w) (v # ws)"
    by simp_all
  have "foldl (dec_step tbl) (out, [], sc) (w @ '' '') = (out @ found tbl (take 19 w), [], 1)"
    using dec_run_code [OF w, of "[]" tbl out sc] w(2) by simp
  then have "foldl (dec_step tbl) (out, [], sc) (join '' '' (w # v # ws)) =
             foldl (dec_step tbl) (out @ found tbl (take 19 w), [], 1) (join '' '' (v # ws))"
    by (simp del: dec_step.simps)
  then show ?case
    using "3.hyps" [OF _ r, of "out @ found tbl (take 19 w)" 1] by simp
qed

lemma decode_fun_tokens:
  assumes "list_all (\<lambda>w. w \<noteq> [] \<and> list_all is_code_byte w) ws"
  shows "decode_fun tbl (join '' '' ws) = concat (map (\<lambda>w. found tbl (take 19 w)) ws)"
proof (cases "ws = []")
  case True
  then show ?thesis by (simp add: decode_fun_def dec_finish_def flush_def)
next
  case False
  then show ?thesis
    using dec_tokens [OF False assms, of tbl "[]" 0] by (simp add: decode_fun_def)
qed

lemma c_str_join:
  "list_all (\<lambda>w. w \<noteq> [] \<and> list_all is_code_byte w) ws \<Longrightarrow> c_str (join '' '' ws) = join '' '' ws"
proof (induction "'' ''" ws rule: join.induct)
  case 1
  then show ?case by (simp add: c_str_def)
next
  case (2 w)
  then show ?case by (simp add: c_str_id code_byte_no_nul)
next
  case (3 w v ws)
  then have "CHR 0x00 \<notin> set w" "c_str (join '' '' (v # ws)) = join '' '' (v # ws)"
    by (simp_all add: code_byte_no_nul)
  then show ?case
    by (simp add: c_str_append) (simp add: c_str_def)
qed

section \<open>The decoder on every input: newlines, the cap, and the end of a code\<close>

lemma dec_step_skip: "is_skip c \<Longrightarrow> dec_step tbl a c = a"
  by (cases a) (simp add: is_skip_def)

lemma dec_run_strip:
  "foldl (dec_step tbl) a (strip_newlines m) = foldl (dec_step tbl) a m"
  unfolding strip_newlines_def
  by (induction m arbitrary: a) (simp_all add: dec_step_skip del: dec_step.simps)

lemma decode_fun_strip: "decode_fun tbl (strip_newlines m) = decode_fun tbl m"
  by (simp add: decode_fun_def dec_run_strip)

lemma c_str_strip: "c_str (strip_newlines m) = strip_newlines (c_str m)"
  by (simp add: strip_newlines_def c_str_filter)

lemma decodeText_strip: "decodeText tbl (strip_newlines m) = decodeText tbl m"
  by (simp add: decodeText_eq c_str_strip decode_fun_strip)

lemma dec_step_pend: "length (fst (snd a)) \<le> 19 \<Longrightarrow> length (fst (snd (dec_step tbl a c))) \<le> 19"
  by (cases a) auto

lemma dec_run_pend:
  "length (fst (snd a)) \<le> 19 \<Longrightarrow> length (fst (snd (foldl (dec_step tbl) a m))) \<le> 19"
proof (induction m arbitrary: a)
  case Nil
  then show ?case by simp
next
  case (Cons c m)
  show ?case
    using Cons.IH [OF dec_step_pend [OF Cons.prems, of tbl c]] by (simp del: dec_step.simps)
qed

lemma strip_code_bytes:
  "list_all (\<lambda>c. is_code_byte c \<or> is_skip c) k \<Longrightarrow> list_all is_code_byte (strip_newlines k)"
  by (auto simp: list_all_iff strip_newlines_def)

lemma dec_run_code_keep:
  assumes "list_all is_code_byte w" "length pend \<le> 19"
  shows "foldl (dec_step tbl) (out, pend, sc) w =
         (out, take 19 (pend @ w), if w = [] then sc else 0)"
proof (cases "w = []")
  case True
  then show ?thesis using assms(2) by simp
next
  case False
  then show ?thesis
    using dec_run_code [OF assms(1) False assms(2), of tbl out sc] by simp
qed

lemma dec_run_cap:
  assumes "list_all (\<lambda>c. is_code_byte c \<or> is_skip c) k"
  shows "foldl (dec_step tbl) ([], [], 0) (a @ k) =
         foldl (dec_step tbl) ([], [], 0) (a @ take 19 (strip_newlines k))"
proof -
  obtain out pend sc where s: "foldl (dec_step tbl) ([], [], 0) a = (out, pend, sc)"
    by (cases "foldl (dec_step tbl) ([], [], 0) a")
  have p: "length pend \<le> 19"
    using dec_run_pend [of "([], [], 0)" tbl a] by (simp add: s)
  let ?w = "strip_newlines k"
  have w: "list_all is_code_byte ?w"
    by (rule strip_code_bytes [OF assms])
  then have t: "list_all is_code_byte (take 19 ?w)"
    by (auto simp: list_all_iff dest: in_set_takeD)
  have "foldl (dec_step tbl) (out, pend, sc) k = foldl (dec_step tbl) (out, pend, sc) ?w"
    by (simp add: dec_run_strip)
  also have "\<dots> = (out, take 19 (pend @ ?w), if ?w = [] then sc else 0)"
    by (rule dec_run_code_keep [OF w p])
  also have "\<dots> = (out, take 19 (pend @ take 19 ?w), if take 19 ?w = [] then sc else 0)"
    by (simp add: min_def)
  also have "\<dots> = foldl (dec_step tbl) (out, pend, sc) (take 19 ?w)"
    by (rule dec_run_code_keep [OF t p, symmetric])
  finally show ?thesis
    by (simp add: s)
qed

lemma code_or_skip_no_nul:
  "list_all (\<lambda>c. is_code_byte c \<or> is_skip c) k \<Longrightarrow> CHR 0x00 \<notin> set k"
  by (auto simp: list_all_iff is_code_byte_def is_plain_def is_skip_def)

lemma decodeText_cap:
  assumes "list_all (\<lambda>c. is_code_byte c \<or> is_skip c) k"
  shows "decodeText tbl (a @ k @ b) = decodeText tbl (a @ take 19 (strip_newlines k) @ b)"
proof (cases "CHR 0x00 \<in> set a")
  case True
  then show ?thesis
    by (simp add: decodeText_eq c_str_append_nul)
next
  case False
  have t: "CHR 0x00 \<notin> set (take 19 (strip_newlines k))"
    using code_or_skip_no_nul [OF assms] by (auto simp: strip_newlines_def dest: in_set_takeD)
  have "c_str (a @ k @ b) = (a @ k) @ c_str b"
    "c_str (a @ take 19 (strip_newlines k) @ b) = (a @ take 19 (strip_newlines k)) @ c_str b"
    using False code_or_skip_no_nul [OF assms] t by (simp_all add: c_str_append)
  then show ?thesis
    using dec_run_cap [OF assms, of tbl a] by (simp add: decodeText_eq decode_fun_def)
qed

lemma dec_run_code_start:
  assumes "at_code_start p"
  shows "\<exists>sc. foldl (dec_step tbl) ([], [], 0) p = (decode_fun tbl p, [], sc)"
proof -
  have "strip_newlines p = [] \<or> last (strip_newlines p) = CHR '' '' \<or>
        last (strip_newlines p) = CHR ''/''"
    using assms by (simp add: at_code_start_def)
  then obtain out sc where "foldl (dec_step tbl) ([], [], 0) (strip_newlines p) = (out, [], sc)"
    using dec_run_boundary [of "strip_newlines p" tbl] by blast
  then have "foldl (dec_step tbl) ([], [], 0) p = (out, [], sc)"
    by (simp add: dec_run_strip)
  then show ?thesis
    by (simp add: decode_fun_def dec_finish_def flush_def)
qed

lemma dec_finish_from:
  "dec_finish tbl (foldl (dec_step tbl) (o1 @ out, pend, sc) m) =
   o1 @ dec_finish tbl (foldl (dec_step tbl) (out, pend, sc) m)"
  using dec_run_shift [of tbl o1 out pend sc m]
  by (simp add: dec_finish_def split: prod.splits)

lemma decode_fun_code_end:
  assumes "at_code_start p" "list_all (\<lambda>c. is_code_byte c \<or> is_skip c) k" "strip_newlines k \<noteq> []"
  shows "decode_fun tbl (p @ k) = decode_fun tbl p @ found tbl (take 19 (strip_newlines k))"
    and "decode_fun tbl (p @ k @ CHR '' '' # q) =
         decode_fun tbl p @ found tbl (take 19 (strip_newlines k)) @ decode_fun tbl (CHR '' '' # q)"
    and "decode_fun tbl (p @ k @ CHR ''/'' # q) =
         decode_fun tbl p @ found tbl (take 19 (strip_newlines k)) @ '' '' @ decode_fun tbl q"
proof -
  let ?w = "strip_newlines k"
  let ?c = "take 19 ?w"
  obtain sc where s: "foldl (dec_step tbl) ([], [], 0) p = (decode_fun tbl p, [], sc)"
    using dec_run_code_start [OF assms(1)] by blast
  have w: "list_all is_code_byte ?w"
    by (rule strip_code_bytes [OF assms(2)])
  have c: "?c \<noteq> []"
    using assms(3) by simp
  have "foldl (dec_step tbl) (decode_fun tbl p, [], sc) k =
        foldl (dec_step tbl) (decode_fun tbl p, [], sc) ?w"
    by (simp add: dec_run_strip)
  then have k: "foldl (dec_step tbl) (foldl (dec_step tbl) ([], [], 0) p) k = (decode_fun tbl p, ?c, 0)"
    using dec_run_code [OF w assms(3), of "[]" tbl "decode_fun tbl p" sc] by (simp add: s)
  show e: "decode_fun tbl (p @ k) = decode_fun tbl p @ found tbl ?c"
    using c by (simp add: decode_fun_def [of tbl "p @ k"] k dec_finish_def flush_def)
  have "foldl (dec_step tbl) ([], [], 0) ((p @ k) @ CHR '' '' # q) =
        foldl (dec_step tbl) ((decode_fun tbl p @ found tbl ?c) @ [], [], 1) q"
    using c by (simp add: k del: append_assoc)
  then have "decode_fun tbl ((p @ k) @ CHR '' '' # q) =
        (decode_fun tbl p @ found tbl ?c) @ dec_finish tbl (foldl (dec_step tbl) ([], [], 1) q)"
    by (simp only: decode_fun_def [of tbl "(p @ k) @ CHR '' '' # q"] dec_finish_from)
  moreover have "decode_fun tbl (CHR '' '' # q) = dec_finish tbl (foldl (dec_step tbl) ([], [], 1) q)"
    by (simp add: decode_fun_def)
  ultimately show "decode_fun tbl (p @ k @ CHR '' '' # q) =
         decode_fun tbl p @ found tbl ?c @ decode_fun tbl (CHR '' '' # q)"
    by simp
  show "decode_fun tbl (p @ k @ CHR ''/'' # q) =
         decode_fun tbl p @ found tbl ?c @ '' '' @ decode_fun tbl q"
    using decode_fun_slash [of tbl "p @ k" q] e by simp
qed

section \<open>The encoder, word by word\<close>

lemma encode_loop_skip_char:
  "is_skip c \<Longrightarrow> encode_loop tbl sl r lws fc (c # t) = encode_loop tbl sl r lws fc t"
  by (simp add: is_skip_def)

lemma encode_loop_space:
  "encode_loop tbl sl r lws fc (CHR '' '' # t) =
   encode_loop tbl sl (r @ (if \<not> lws \<and> \<not> fc then wordsep sl else [])) True fc t"
  by (simp add: wordsep_def strcat_def c_str_def)

lemma encode_loop_char:
  "\<not> is_skip c \<Longrightarrow> c \<noteq> CHR '' '' \<Longrightarrow>
   encode_loop tbl sl r lws fc (c # t) =
   encode_loop tbl sl (r @ (if \<not> fc \<and> \<not> lws then '' '' else []) @ symbol tbl c) False False t"
  by (simp add: is_skip_def symbol_def strcat_def c_str_def split: option.split)

lemma char_cases:
  obtains (skip) "is_skip c" | (space) "\<not> is_skip c" "c = CHR '' ''" | (char) "\<not> is_skip c" "c \<noteq> CHR '' ''"
  by blast

lemma encode_loop_append:
  "encode_loop tbl sl (r @ s) lws fc t = r @ encode_loop tbl sl s lws fc t"
proof (induction t arbitrary: s lws fc)
  case Nil
  then show ?case by simp
next
  case (Cons c t)
  show ?case
  proof (cases c rule: char_cases)
    case skip
    then show ?thesis by (simp add: encode_loop_skip_char Cons.IH del: encode_loop.simps(2))
  next
    case space
    then show ?thesis by (simp add: encode_loop_space Cons.IH del: encode_loop.simps(2))
  next
    case char
    then show ?thesis by (simp add: encode_loop_char Cons.IH del: encode_loop.simps(2))
  qed
qed

lemma encode_loop_acc:
  "encode_loop tbl sl r lws fc t = r @ encode_loop tbl sl [] lws fc t"
  using encode_loop_append [of tbl sl r "[]" lws fc t] by simp


lemma encode_loop_quiet:
  "lws \<or> fc \<Longrightarrow> encode_loop tbl sl r lws fc t = encode_loop tbl sl r True True t"
proof (induction t arbitrary: lws fc)
  case Nil
  then show ?case by simp
next
  case (Cons c t)
  show ?case
  proof (cases c rule: char_cases)
    case skip
    have "encode_loop tbl sl r lws fc t = encode_loop tbl sl r True True t"
      by (rule Cons.IH [OF Cons.prems])
    then show ?thesis
      using skip by (simp add: encode_loop_skip_char del: encode_loop.simps(2))
  next
    case space
    have "encode_loop tbl sl r True fc t = encode_loop tbl sl r True True t"
      by (rule Cons.IH) simp
    moreover have "(if \<not> lws \<and> \<not> fc then wordsep sl else []) = []"
      using Cons.prems by auto
    ultimately show ?thesis
      using space by (simp add: encode_loop_space del: encode_loop.simps(2))
  next
    case char
    have "(if \<not> fc \<and> \<not> lws then '' '' else []) = []"
      using Cons.prems by auto
    then show ?thesis
      using char by (simp add: encode_loop_char del: encode_loop.simps(2))
  qed
qed

text \<open>The state after a prefix that ends in an encoded character.\<close>

lemma encode_loop_prefix:
  "\<exists>r' lws' fc'. \<forall>t. encode_loop tbl sl r lws fc (a @ t) = encode_loop tbl sl r' lws' fc' t"
proof (induction a arbitrary: r lws fc)
  case Nil
  then show ?case by auto
next
  case (Cons c a)
  show ?case
  proof (cases c rule: char_cases)
    case skip
    then show ?thesis using Cons.IH [of r lws fc] by (simp add: encode_loop_skip_char del: encode_loop.simps(2))
  next
    case space
    then show ?thesis
      using Cons.IH [of "r @ (if \<not> lws \<and> \<not> fc then wordsep sl else [])" True fc]
      by (simp add: encode_loop_space del: encode_loop.simps(2))
  next
    case char
    then show ?thesis
      using Cons.IH [of "r @ (if \<not> fc \<and> \<not> lws then '' '' else []) @ symbol tbl c" False False]
      by (simp add: encode_loop_char del: encode_loop.simps(2))
  qed
qed

lemma encode_loop_word_end:
  assumes "a \<noteq> []" "\<not> is_skip (last a)" "last a \<noteq> CHR '' ''"
  shows "encode_loop tbl sl r lws fc (a @ t) =
         encode_loop tbl sl (encode_loop tbl sl r lws fc a) False False t"
proof -
  obtain xs x where a: "a = xs @ [x]"
    using assms(1) by (metis append_butlast_last_id)
  then have x: "\<not> is_skip x" "x \<noteq> CHR '' ''"
    using assms(2,3) by simp_all
  obtain r' lws' fc' where p: "\<And>t. encode_loop tbl sl r lws fc (xs @ t) = encode_loop tbl sl r' lws' fc' t"
    using encode_loop_prefix [of tbl sl r lws fc xs] by blast
  have "encode_loop tbl sl r lws fc (a @ t) = encode_loop tbl sl r' lws' fc' (x # t)"
    using p [of "x # t"] by (simp add: a)
  moreover have "encode_loop tbl sl r lws fc a = encode_loop tbl sl r' lws' fc' [x]"
    using p [of "[x]"] by (simp add: a)
  ultimately show ?thesis
    using x by (simp add: encode_loop_char del: encode_loop.simps(2))
qed


lemma encodeText_leading:
  "encodeText tbl sl (replicate n (CHR '' '') @ t) = encodeText tbl sl t"
proof (induction n)
  case 0
  then show ?case by simp
next
  case (Suc n)
  have "encodeText tbl sl (CHR '' '' # replicate n (CHR '' '') @ t) =
        encode_loop tbl sl [] True True (c_str (replicate n (CHR '' '') @ t))"
    by (simp add: encodeText_def c_str_def encode_loop_space del: encode_loop.simps(2))
  also have "\<dots> = encodeText tbl sl (replicate n (CHR '' '') @ t)"
    using encode_loop_quiet [of False True tbl sl "[]" "c_str (replicate n (CHR '' '') @ t)"]
    by (simp add: encodeText_def)
  finally show ?case
    using Suc by simp
qed

lemma encodeText_word_space:
  assumes "CHR 0x00 \<notin> set a" "a \<noteq> []" "\<not> is_skip (last a)" "last a \<noteq> CHR '' ''"
  shows "encodeText tbl sl (a @ CHR '' '' # b) = encodeText tbl sl a @ wordsep sl @ encodeText tbl sl b"
proof -
  have "encodeText tbl sl (a @ CHR '' '' # b) =
        encode_loop tbl sl [] False True (a @ CHR '' '' # c_str b)"
    using assms(1) by (simp add: encodeText_def c_str_append) (simp add: c_str_def)
  also have "\<dots> = encode_loop tbl sl (encodeText tbl sl a) False False (CHR '' '' # c_str b)"
    using encode_loop_word_end [OF assms(2-4)] assms(1) by (simp add: encodeText_def c_str_id)
  also have "\<dots> = encode_loop tbl sl (encodeText tbl sl a @ wordsep sl) True False (c_str b)"
    by (simp add: encode_loop_space del: encode_loop.simps(2))
  also have "\<dots> = (encodeText tbl sl a @ wordsep sl) @ encode_loop tbl sl [] True False (c_str b)"
    by (rule encode_loop_acc)
  also have "encode_loop tbl sl [] True False (c_str b) = encodeText tbl sl b"
    using encode_loop_quiet [of True False tbl sl "[]" "c_str b"]
      encode_loop_quiet [of False True tbl sl "[]" "c_str b"]
    by (simp add: encodeText_def)
  finally show ?thesis by simp
qed

lemma encodeText_words:
  assumes "CHR 0x00 \<notin> set a" "a \<noteq> []" "\<not> is_skip (last a)" "last a \<noteq> CHR '' ''"
  shows "encodeText tbl sl (replicate n (CHR '' '') @ a @ replicate (Suc m) (CHR '' '') @ b) =
         encodeText tbl sl a @ wordsep sl @ encodeText tbl sl b"
  using encodeText_word_space [OF assms, of tbl sl "replicate m (CHR '' '') @ b"]
  by (simp add: encodeText_leading)

lemma join_Cons: "join sep (x # xs) = x @ concat (map (\<lambda>y. sep @ y) xs)"
  by (induction xs arbitrary: x) simp_all

lemma encode_loop_word:
  "list_all is_plain w \<Longrightarrow>
   encode_loop tbl sl r False False w = r @ concat (map (\<lambda>c. '' '' @ symbol tbl c) w)"
proof (induction w arbitrary: r)
  case Nil
  then show ?case by simp
next
  case (Cons c w)
  from Cons.prems have "is_plain c" and w: "list_all is_plain w"
    by simp_all
  then have "\<not> is_skip c" "c \<noteq> CHR '' ''"
    by (simp_all add: is_plain_def)
  with w show ?case
    using Cons.IH [of "r @ '' '' @ symbol tbl c"]
    by (simp add: encode_loop_char del: encode_loop.simps(2))
qed

lemma encodeText_word:
  assumes "list_all is_plain w"
  shows "encodeText tbl sl w = join '' '' (map (symbol tbl) w)"
proof (cases w)
  case Nil
  then show ?thesis by (simp add: encodeText_def c_str_def)
next
  case (Cons c v)
  from assms have nn: "CHR 0x00 \<notin> set w"
    by (auto simp: list_all_iff is_plain_def)
  from assms Cons have "is_plain c" and v: "list_all is_plain v"
    by simp_all
  then have c: "\<not> is_skip c" "c \<noteq> CHR '' ''"
    by (simp_all add: is_plain_def)
  have "encodeText tbl sl w = encode_loop tbl sl [] False True (c # v)"
    using nn Cons by (simp add: encodeText_def c_str_id)
  also have "\<dots> = encode_loop tbl sl (symbol tbl c) False False v"
    using c by (simp add: encode_loop_char del: encode_loop.simps(2))
  also have "\<dots> = symbol tbl c @ concat (map (\<lambda>c. '' '' @ symbol tbl c) v)"
    by (rule encode_loop_word [OF v])
  finally show ?thesis
    by (simp add: Cons join_Cons map_map comp_def)
qed

lemma encodeText_char_flag:
  "is_plain c \<Longrightarrow> encodeText tbl sl [c] = encodeText tbl False [c]"
  by (simp add: encodeText_word)

lemma find_character_mem:
  "find_character tbl c = Some cd \<Longrightarrow> \<exists>e\<in>set tbl. code e = cd"
  by (induction tbl) (auto split: if_splits)

lemma find_character_entry:
  "find_character tbl c = Some cd \<Longrightarrow> \<exists>e\<in>set tbl. code e = cd \<and> character e = c"
  by (induction tbl) (auto split: if_splits)

lemma count_symbol:
  assumes "list_all (\<lambda>e. CHR ''*'' \<notin> set (c_str (code e))) tbl"
  shows "count_list (symbol tbl c) (CHR ''*'') = (if getCharacterCode tbl c = None then 1 else 0)"
proof (cases "getCharacterCode tbl c")
  case None
  then show ?thesis by (simp add: symbol_def)
next
  case (Some cd)
  then obtain e where "e \<in> set tbl" "code e = cd"
    using find_character_mem [of tbl "toupper c" cd] by (auto simp: getCharacterCode_def)
  then have "CHR ''*'' \<notin> set (c_str cd)"
    using assms by (auto simp: list_all_iff)
  then show ?thesis
    using Some by (simp add: symbol_def)
qed

lemma count_encode_loop:
  assumes "list_all (\<lambda>e. CHR ''*'' \<notin> set (c_str (code e))) tbl"
  shows "count_list (encode_loop tbl sl r lws fc t) (CHR ''*'') =
         count_list r (CHR ''*'') +
         length (filter (\<lambda>c. \<not> is_skip c \<and> c \<noteq> CHR '' '' \<and> getCharacterCode tbl c = None) t)"
proof (induction t arbitrary: r lws fc)
  case Nil
  then show ?case by simp
next
  case (Cons c t)
  show ?case
  proof (cases c rule: char_cases)
    case skip
    then show ?thesis by (simp add: encode_loop_skip_char Cons.IH del: encode_loop.simps(2))
  next
    case space
    then show ?thesis
      by (simp add: encode_loop_space Cons.IH wordsep_def del: encode_loop.simps(2))
  next
    case char
    then show ?thesis
      by (simp add: encode_loop_char Cons.IH count_symbol [OF assms] del: encode_loop.simps(2))
  qed
qed

text \<open>The first and the last byte of an encoding.\<close>

lemma symbol_shape:
  assumes "list_all (\<lambda>e. c_str (code e) \<noteq> [] \<and> CHR '' '' \<notin> set (c_str (code e))) tbl"
  shows "symbol tbl c \<noteq> [] \<and> CHR '' '' \<notin> set (symbol tbl c)"
proof (cases "getCharacterCode tbl c")
  case None
  then show ?thesis by (simp add: symbol_def)
next
  case (Some cd)
  then obtain e where "e \<in> set tbl" "code e = cd"
    using find_character_mem [of tbl "toupper c" cd] by (auto simp: getCharacterCode_def)
  then have "c_str cd \<noteq> [] \<and> CHR '' '' \<notin> set (c_str cd)"
    using assms by (auto simp: list_all_iff)
  then show ?thesis
    using Some by (simp add: symbol_def)
qed

lemma encode_loop_first:
  assumes "list_all (\<lambda>e. c_str (code e) \<noteq> [] \<and> CHR '' '' \<notin> set (c_str (code e))) tbl"
  shows "take 1 (encode_loop tbl sl [] lws True t) \<noteq> '' ''"
proof (induction t arbitrary: lws)
  case Nil
  then show ?case by simp
next
  case (Cons c t)
  show ?case
  proof (cases c rule: char_cases)
    case skip
    then show ?thesis
      using Cons.IH [of lws] by (simp add: encode_loop_skip_char del: encode_loop.simps(2))
  next
    case space
    then show ?thesis
      using Cons.IH [of True] by (simp add: encode_loop_space del: encode_loop.simps(2))
  next
    case char
    have "encode_loop tbl sl [] lws True (c # t) = symbol tbl c @ encode_loop tbl sl [] False False t"
      using char encode_loop_acc [of tbl sl "symbol tbl c" False False t]
      by (simp add: encode_loop_char del: encode_loop.simps(2))
    then show ?thesis
      using symbol_shape [OF assms, of c] by (cases "symbol tbl c") auto
  qed
qed

lemma encode_loop_last:
  assumes "list_all (\<lambda>e. c_str (code e) \<noteq> [] \<and> CHR '' '' \<notin> set (c_str (code e))) tbl"
    and "a \<noteq> []" "\<not> is_skip (last a)" "last a \<noteq> CHR '' ''"
  shows "encode_loop tbl sl r lws fc a \<noteq> [] \<and> last (encode_loop tbl sl r lws fc a) \<noteq> CHR '' ''"
proof -
  obtain xs x where a: "a = xs @ [x]"
    using assms(2) by (metis append_butlast_last_id)
  then have x: "\<not> is_skip x" "x \<noteq> CHR '' ''"
    using assms(3,4) by simp_all
  obtain r' lws' fc' where p: "\<And>t. encode_loop tbl sl r lws fc (xs @ t) = encode_loop tbl sl r' lws' fc' t"
    using encode_loop_prefix [of tbl sl r lws fc xs] by blast
  have "encode_loop tbl sl r lws fc a =
        (r' @ (if \<not> fc' \<and> \<not> lws' then '' '' else [])) @ symbol tbl x"
    using p [of "[x]"] x by (simp add: a encode_loop_char del: encode_loop.simps(2))
  moreover have "symbol tbl x \<noteq> []" "last (symbol tbl x) \<noteq> CHR '' ''"
    using symbol_shape [OF assms(1), of x] last_in_set [of "symbol tbl x"] by metis+
  ultimately show ?thesis
    by (simp del: append_assoc)
qed

text \<open>
  Leading runs of spaces and runs of spaces after a word: nothing for the first, and for the
  second one separator between the encoding of the text before the run and the encoding
  of the text after it.
\<close>

lemma encodeText_runs:
  assumes "CHR 0x00 \<notin> set a" "a \<noteq> []" "last a \<notin> {CHR '' '', CHR 0x0A, CHR 0x0D}"
  shows "encodeText tbl sl (replicate n (CHR '' '') @ a @ replicate (Suc m) (CHR '' '') @ b) =
           encodeText tbl sl a @ (if sl then '' / '' else ''   '') @ encodeText tbl sl b"
    and "encodeText tbl sl (replicate n (CHR '' '') @ b) = encodeText tbl sl b"
    and "encodeText tbl sl (replicate n (CHR '' '')) = []"
    and "encodeText tbl sl ''A   B'' = encodeText tbl sl ''A B''"
proof -
  have l: "\<not> is_skip (last a)" "last a \<noteq> CHR '' ''"
    using assms(3) by (simp_all add: is_skip_def)
  have e: "encodeText tbl sl [] = []"
    by (simp add: encodeText_def c_str_def)
  have A: "CHR 0x00 \<notin> set ''A''" "''A'' \<noteq> []" "\<not> is_skip (last ''A'')" "last ''A'' \<noteq> CHR '' ''"
    by (simp_all add: is_skip_def)
  have "encodeText tbl sl (replicate 0 (CHR '' '') @ ''A'' @ replicate (Suc 2) (CHR '' '') @ ''B'') =
        encodeText tbl sl (replicate 0 (CHR '' '') @ ''A'' @ replicate (Suc 0) (CHR '' '') @ ''B'')"
    by (simp only: encodeText_words [OF A])
  then show "encodeText tbl sl ''A   B'' = encodeText tbl sl ''A B''"
    by (simp add: numeral_3_eq_3)
  show "encodeText tbl sl (replicate n (CHR '' '') @ a @ replicate (Suc m) (CHR '' '') @ b) =
           encodeText tbl sl a @ (if sl then '' / '' else ''   '') @ encodeText tbl sl b"
    using encodeText_words [OF assms(1,2) l, of tbl sl n m b] by (simp add: wordsep_def)
  show "encodeText tbl sl (replicate n (CHR '' '') @ b) = encodeText tbl sl b"
    by (rule encodeText_leading)
  show "encodeText tbl sl (replicate n (CHR '' '')) = []"
    using encodeText_leading [of tbl sl n "[]"] by (simp add: e)
qed

section \<open>The size estimate of encodeText\<close>

text \<open>
  \<^verbatim>\<open>encodeText\<close> allocates \<^verbatim>\<open>strlen(text) * 10\<close> bytes. A character adds at most a separating
  space and a code, a space at most a word separator; with codes of at most 6 bytes that
  is at most 7 bytes for each byte of the text, so the result and its terminator fit
  whenever the text is not empty.
\<close>

lemma length_symbol:
  assumes "list_all (\<lambda>e. length (c_str (code e)) \<le> 6) tbl"
  shows "length (symbol tbl c) \<le> 6"
proof (cases "getCharacterCode tbl c")
  case None
  then show ?thesis by (simp add: symbol_def)
next
  case (Some cd)
  then obtain e where "e \<in> set tbl" "code e = cd"
    using find_character_mem [of tbl "toupper c" cd] by (auto simp: getCharacterCode_def)
  then have "length (c_str cd) \<le> 6"
    using assms by (auto simp: list_all_iff)
  then show ?thesis
    using Some by (simp add: symbol_def)
qed

lemma length_encode_loop:
  assumes "list_all (\<lambda>e. length (c_str (code e)) \<le> 6) tbl"
  shows "length (encode_loop tbl sl r lws fc t) \<le> length r + 7 * length t"
proof (induction t arbitrary: r lws fc)
  case Nil
  then show ?case by simp
next
  case (Cons c t)
  show ?case
  proof (cases c rule: char_cases)
    case skip
    then show ?thesis
      using Cons.IH [of r lws fc] by (simp add: encode_loop_skip_char del: encode_loop.simps(2))
  next
    case space
    let ?r = "r @ (if \<not> lws \<and> \<not> fc then wordsep sl else [])"
    have "length ?r \<le> length r + 3"
      by (simp add: wordsep_def)
    moreover have "length (encode_loop tbl sl ?r True fc t) \<le> length ?r + 7 * length t"
      by (rule Cons.IH)
    moreover have "encode_loop tbl sl r lws fc (c # t) = encode_loop tbl sl ?r True fc t"
      using space by (simp only: encode_loop_space)
    ultimately show ?thesis
      by simp
  next
    case char
    let ?r = "r @ (if \<not> fc \<and> \<not> lws then '' '' else []) @ symbol tbl c"
    have "length ?r \<le> length r + 7"
      using length_symbol [OF assms, of c] by simp
    moreover have "length (encode_loop tbl sl ?r False False t) \<le> length ?r + 7 * length t"
      by (rule Cons.IH)
    moreover have "encode_loop tbl sl r lws fc (c # t) = encode_loop tbl sl ?r False False t"
      using char by (rule encode_loop_char)
    ultimately show ?thesis
      by simp
  qed
qed

lemma encodeText_fits:
  assumes "list_all (\<lambda>e. length (c_str (code e)) \<le> 6) tbl" "0 < strlen text"
  shows "length (encodeText tbl sl text) + 1 \<le> strlen text * 10"
proof -
  have "length (encodeText tbl sl text) \<le> 7 * strlen text"
    using length_encode_loop [OF assms(1), of sl "[]" False True "c_str text"]
    by (simp add: encodeText_def strlen_def)
  then show ?thesis
    using assms(2) by linarith
qed

section \<open>encodeText within its buffer\<close>

text \<open>
  As long as the string built fits the buffer with its terminator, \<open>encodeText_buf\<close>
  returns the string \<open>encodeText\<close>. With codes of at most 6 bytes that is so for every
  text that is not empty. For the empty text the buffer has no byte, and the first store,
  \<^verbatim>\<open>result[0] = '\0'\<close>, is outside it.
\<close>

lemma store_str_ok:
  "take i buf = map Some s0 \<Longrightarrow> length s0 = i \<Longrightarrow> i + length x < length buf \<Longrightarrow>
   \<exists>b. store_str buf i x = Inr b \<and> length b = length buf \<and>
       take (i + length x) b = map Some (s0 @ x) \<and> b ! (i + length x) = Some (CHR 0x00)"
proof (induction x arbitrary: buf i s0)
  case Nil
  then show ?case by (simp add: store_def)
next
  case (Cons c x)
  let ?b = "buf[i := Some c]"
  have s: "store buf i c = Inr ?b"
    using Cons.prems by (simp add: store_def)
  have "take (i + 1) ?b = map Some (s0 @ [c])"
    using Cons.prems by (simp add: take_Suc_conv_app_nth)
  moreover have "length (s0 @ [c]) = i + 1" "(i + 1) + length x < length ?b"
    using Cons.prems by simp_all
  ultimately obtain b where "store_str ?b (i + 1) x = Inr b" "length b = length ?b"
    "take ((i + 1) + length x) b = map Some ((s0 @ [c]) @ x)" "b ! ((i + 1) + length x) = Some (CHR 0x00)"
    using Cons.IH [of "i + 1" ?b "s0 @ [c]"] by blast
  then show ?case
    using s by simp
qed

lemma holds_read: "holds buf s \<Longrightarrow> read_str buf = Inr s"
  unfolding holds_def by (intro read_str_take [where k = "length s"]) simp_all

lemma strcat_buf_ok:
  assumes "holds buf s" "length (strcat s x) < length buf"
  shows "\<exists>b. strcat_buf buf x = Inr b \<and> length b = length buf \<and> holds b (strcat s x)"
proof -
  have t: "take (length s) buf = map Some s" and n: "CHR 0x00 \<notin> set s"
    using assms(1) by (simp_all add: holds_def)
  have l: "length s + length (c_str x) < length buf"
    using assms(2) by (simp add: strcat_def)
  obtain b where "store_str buf (length s) (c_str x) = Inr b" "length b = length buf"
    "take (length s + length (c_str x)) b = map Some (s @ c_str x)"
    "b ! (length s + length (c_str x)) = Some (CHR 0x00)"
    using store_str_ok [OF t _ l] by blast
  then show ?thesis
    using holds_read [OF assms(1)] n l c_str_no_nul [of x]
    by (simp add: strcat_buf_def holds_def strcat_def)
qed

lemma encode_loop_grows: "length r \<le> length (encode_loop tbl sl r lws fc t)"
  using encode_loop_acc [of tbl sl r lws fc t] by simp

lemma encode_loop_buf_ok:
  "holds buf s \<Longrightarrow> length (encode_loop tbl sl s lws fc t) < length buf \<Longrightarrow>
   \<exists>b. encode_loop_buf tbl sl buf lws fc t = Inr b \<and> length b = length buf \<and>
       holds b (encode_loop tbl sl s lws fc t)"
proof (induction t arbitrary: buf s lws fc)
  case Nil
  then show ?case by simp
next
  case (Cons c t)
  have step: "\<exists>b. strcat_buf bf x = Inr b \<and> length b = length buf \<and> holds b (strcat r x)"
    if "holds bf r" "length bf = length buf" "length (encode_loop tbl sl (strcat r x) l f t) < length buf"
    for bf r x l f
  proof -
    have "length (strcat r x) < length bf"
      using that(2,3) encode_loop_grows [of "strcat r x" tbl sl l f t] by simp
    then show ?thesis
      using strcat_buf_ok [OF that(1), of x] that(2) by simp
  qed
  consider (skip) "c = CHR 0x0A \<or> c = CHR 0x0D"
    | (space) "c \<noteq> CHR 0x0A" "c \<noteq> CHR 0x0D" "c = CHR '' ''"
    | (char) "c \<noteq> CHR 0x0A" "c \<noteq> CHR 0x0D" "c \<noteq> CHR '' ''"
    by blast
  then show ?case
  proof cases
    case skip
    then show ?thesis
      using Cons.IH [OF Cons.prems(1), of lws fc] Cons.prems(2) by auto
  next
    case space
    show ?thesis
    proof (cases "\<not> lws \<and> \<not> fc")
      case True
      let ?x = "if sl then '' / '' else ''   ''"
      have e: "encode_loop tbl sl s lws fc (c # t) = encode_loop tbl sl (strcat s ?x) True fc t"
        using space True by simp
      obtain b1 where b1: "strcat_buf buf ?x = Inr b1" "length b1 = length buf" "holds b1 (strcat s ?x)"
        using step [OF Cons.prems(1) refl, of ?x True fc] Cons.prems(2) e by auto
      obtain b where "encode_loop_buf tbl sl b1 True fc t = Inr b" "length b = length b1"
        "holds b (encode_loop tbl sl (strcat s ?x) True fc t)"
        using Cons.IH [OF b1(3), of True fc] Cons.prems(2) e b1(2) by auto
      then show ?thesis
        using space True b1 e by (auto split: if_splits)
    next
      case False
      have e: "encode_loop tbl sl s lws fc (c # t) = encode_loop tbl sl s True fc t"
        using space False by auto
      obtain b where "encode_loop_buf tbl sl buf True fc t = Inr b" "length b = length buf"
        "holds b (encode_loop tbl sl s True fc t)"
        using Cons.IH [OF Cons.prems(1), of True fc] Cons.prems(2) e by auto
      then show ?thesis
        using space False e by auto
    qed
  next
    case char
    let ?sp = "if \<not> fc \<and> \<not> lws then strcat s '' '' else s"
    let ?x = "case getCharacterCode tbl c of Some cd \<Rightarrow> cd | None \<Rightarrow> ''*''"
    have e: "encode_loop tbl sl s lws fc (c # t) = encode_loop tbl sl (strcat ?sp ?x) False False t"
      using char by (simp add: Let_def split: option.split)
    have g: "length (strcat ?sp ?x) < length buf"
      using Cons.prems(2) e encode_loop_grows [of "strcat ?sp ?x" tbl sl False False t] by simp
    have "\<exists>b0. (if \<not> fc \<and> \<not> lws then strcat_buf buf '' '' else Inr buf) = Inr b0 \<and>
            length b0 = length buf \<and> holds b0 ?sp"
    proof (cases "\<not> fc \<and> \<not> lws")
      case True
      have "length (strcat s '' '') < length buf"
        using g True by (simp add: strcat_def)
      then show ?thesis
        using strcat_buf_ok [OF Cons.prems(1), of "'' ''"] True by simp
    next
      case False
      then show ?thesis using Cons.prems(1) by auto
    qed
    then obtain b0 where b0: "(if \<not> fc \<and> \<not> lws then strcat_buf buf '' '' else Inr buf) = Inr b0"
      "length b0 = length buf" "holds b0 ?sp"
      by blast
    obtain b1 where b1: "strcat_buf b0 ?x = Inr b1" "length b1 = length buf" "holds b1 (strcat ?sp ?x)"
      using strcat_buf_ok [OF b0(3), of ?x] g b0(2) by auto
    obtain b where b: "encode_loop_buf tbl sl b1 False False t = Inr b" "length b = length b1"
      "holds b (encode_loop tbl sl (strcat ?sp ?x) False False t)"
      using Cons.IH [OF b1(3), of False False] Cons.prems(2) e b1(2) by auto
    have "encode_loop_buf tbl sl buf lws fc (c # t) = Inr b"
      using char b0(1) b1(1) b(1) by (cases "getCharacterCode tbl c") simp_all
    then show ?thesis
      using b b1(2) e by simp
  qed
qed

lemma encodeText_buf_fits:
  assumes "malloc_ok (strlen tx * 10)" "length (encodeText tbl sl tx) < strlen tx * 10"
  shows "encodeText_buf malloc_ok tbl sl tx = Inr (encodeText tbl sl tx)"
proof -
  let ?n = "strlen tx * 10"
  let ?r = "(malloc ?n)[0 := Some (CHR 0x00)]"
  have n: "0 < ?n"
    using assms(2) by simp
  then have s: "store (malloc ?n) 0 (CHR 0x00) = Inr ?r"
    by (simp add: store_def malloc_def)
  have h: "holds ?r []"
    using n by (simp add: holds_def malloc_def)
  have "length (encode_loop tbl sl [] False True (c_str tx)) < length ?r"
    using assms(2) by (simp add: encodeText_def malloc_def)
  then obtain b where "encode_loop_buf tbl sl ?r False True (c_str tx) = Inr b"
    "holds b (encode_loop tbl sl [] False True (c_str tx))"
    using encode_loop_buf_ok [OF h] by blast
  then show ?thesis
    using assms(1) s holds_read [of b] by (simp add: encodeText_buf_def encodeText_def Let_def)
qed

lemma encodeText_buf_empty:
  assumes "strlen tx = 0"
  shows "encodeText_buf malloc_ok tbl sl tx = (if malloc_ok 0 then Inl OutOfBounds else Inl MemoryError)"
  using assms by (simp add: encodeText_buf_def Let_def store_def malloc_def)

lemma encodeText_buf_tables:
  assumes "list_all (\<lambda>e. length (c_str (code e)) \<le> 6) tbl"
  shows "encodeText_buf malloc_ok tbl sl tx =
    (if \<not> malloc_ok (strlen tx * 10) then Inl MemoryError
     else if strlen tx = 0 then Inl OutOfBounds
     else Inr (encodeText tbl sl tx))"
proof (cases "strlen tx = 0")
  case True
  then show ?thesis by (simp add: encodeText_buf_empty)
next
  case False
  show ?thesis
  proof (cases "malloc_ok (strlen tx * 10)")
    case True
    have "length (encodeText tbl sl tx) < strlen tx * 10"
      using encodeText_fits [OF assms, of tx sl] False by simp
    then show ?thesis
      using True False by (simp add: encodeText_buf_fits)
  next
    case False
    then show ?thesis by (simp add: encodeText_buf_def Let_def)
  qed
qed

section \<open>What the lookups never ask the table\<close>

lemma toupper_space: "toupper c = CHR '' '' \<longleftrightarrow> c = CHR '' ''"
  by (simp add: toupper_def)

lemma find_character_filter:
  "c \<noteq> x \<Longrightarrow> find_character (filter (\<lambda>e. character e \<noteq> x) tbl) c = find_character tbl c"
  by (induction tbl) auto

lemma symbol_filter:
  "c \<noteq> CHR '' '' \<Longrightarrow> symbol (filter (\<lambda>e. character e \<noteq> CHR '' '') tbl) c = symbol tbl c"
  by (simp add: symbol_def getCharacterCode_def find_character_filter toupper_space)

lemma encode_loop_table:
  "encode_loop (filter (\<lambda>e. character e \<noteq> CHR '' '') tbl) sl r lws fc t = encode_loop tbl sl r lws fc t"
proof (induction t arbitrary: r lws fc)
  case Nil
  then show ?case by simp
next
  case (Cons c t)
  show ?case
  proof (cases c rule: char_cases)
    case skip
    then show ?thesis by (simp add: encode_loop_skip_char Cons.IH del: encode_loop.simps(2))
  next
    case space
    then show ?thesis by (simp add: encode_loop_space Cons.IH del: encode_loop.simps(2))
  next
    case char
    then show ?thesis
      by (simp add: encode_loop_char Cons.IH symbol_filter del: encode_loop.simps(2))
  qed
qed

lemma getCodeCharacter_filter:
  "c_str cd \<noteq> ''/'' \<Longrightarrow>
   getCodeCharacter (filter (\<lambda>e. c_str (code e) \<noteq> ''/'') tbl) cd = getCodeCharacter tbl cd"
  by (induction tbl) (auto simp: strcmp_eq_def)

lemma found_filter:
  assumes "CHR ''/'' \<notin> set pend"
  shows "found (filter (\<lambda>e. c_str (code e) \<noteq> ''/'') tbl) pend = found tbl pend"
proof -
  have "c_str pend \<noteq> ''/''"
    using assms c_str_subset [of pend] by auto
  then show ?thesis
    by (simp add: found_def getCodeCharacter_filter)
qed

lemma dec_step_table:
  assumes "CHR ''/'' \<notin> set pend"
  shows "dec_step (filter (\<lambda>e. c_str (code e) \<noteq> ''/'') tbl) (out, pend, sc) c =
         dec_step tbl (out, pend, sc) c"
  using assms by (simp add: flush_def found_filter)

lemma dec_step_no_slash:
  "CHR ''/'' \<notin> set (fst (snd a)) \<Longrightarrow> CHR ''/'' \<notin> set (fst (snd (dec_step tbl a c)))"
  by (cases a) auto

lemma dec_run_table:
  "CHR ''/'' \<notin> set (fst (snd a)) \<Longrightarrow>
   foldl (dec_step (filter (\<lambda>e. c_str (code e) \<noteq> ''/'') tbl)) a m = foldl (dec_step tbl) a m \<and>
   CHR ''/'' \<notin> set (fst (snd (foldl (dec_step tbl) a m)))"
proof (induction m arbitrary: a)
  case Nil
  then show ?case by simp
next
  case (Cons c m)
  obtain out pend sc where a: "a = (out, pend, sc)"
    by (cases a)
  have "dec_step (filter (\<lambda>e. c_str (code e) \<noteq> ''/'') tbl) a c = dec_step tbl a c"
    using Cons.prems dec_step_table [of pend tbl out sc c] by (simp add: a)
  then show ?case
    using Cons.IH [OF dec_step_no_slash [OF Cons.prems, of tbl c]] by (simp del: dec_step.simps)
qed

lemma decode_fun_table:
  "decode_fun (filter (\<lambda>e. c_str (code e) \<noteq> ''/'') tbl) m = decode_fun tbl m"
proof -
  let ?a = "foldl (dec_step tbl) ([], [], 0) m"
  have r: "foldl (dec_step (filter (\<lambda>e. c_str (code e) \<noteq> ''/'') tbl)) ([], [], 0) m = ?a"
    and n: "CHR ''/'' \<notin> set (fst (snd ?a))"
    using dec_run_table [of "([], [], 0)" tbl m] by simp_all
  obtain out pend sc where a: "?a = (out, pend, sc)"
    by (cases ?a)
  show ?thesis
    using n found_filter [of pend tbl] by (simp add: decode_fun_def r a dec_finish_def flush_def)
qed

lemma symbol_no_slash:
  assumes "list_all (\<lambda>e. character e = CHR '' '' \<or> CHR ''/'' \<notin> set (c_str (code e))) tbl"
    and "c \<noteq> CHR '' ''"
  shows "CHR ''/'' \<notin> set (symbol tbl c)"
proof (cases "getCharacterCode tbl c")
  case None
  then show ?thesis by (simp add: symbol_def)
next
  case (Some cd)
  then obtain e where e: "e \<in> set tbl" "code e = cd" "character e = toupper c"
    using find_character_entry [of tbl "toupper c" cd] by (auto simp: getCharacterCode_def)
  have "toupper c \<noteq> CHR '' ''"
    using assms(2) by (simp add: toupper_space)
  then have "CHR ''/'' \<notin> set (c_str cd)"
    using assms(1) e by (auto simp: list_all_iff)
  then show ?thesis
    using Some by (simp add: symbol_def)
qed

lemma encode_loop_no_slash:
  assumes "list_all (\<lambda>e. character e = CHR '' '' \<or> CHR ''/'' \<notin> set (c_str (code e))) tbl"
  shows "CHR ''/'' \<notin> set r \<Longrightarrow> CHR ''/'' \<notin> set (encode_loop tbl False r lws fc t)"
proof (induction t arbitrary: r lws fc)
  case Nil
  then show ?case by simp
next
  case (Cons c t)
  show ?case
  proof (cases c rule: char_cases)
    case skip
    then show ?thesis
      using Cons by (simp add: encode_loop_skip_char del: encode_loop.simps(2))
  next
    case space
    have "CHR ''/'' \<notin> set (r @ (if \<not> lws \<and> \<not> fc then wordsep False else []))"
      using Cons.prems by (simp add: wordsep_def)
    then show ?thesis
      using space Cons.IH by (simp add: encode_loop_space del: encode_loop.simps(2))
  next
    case char
    have "CHR ''/'' \<notin> set (r @ (if \<not> fc \<and> \<not> lws then '' '' else []) @ symbol tbl c)"
      using Cons.prems symbol_no_slash [OF assms char(2)] by simp
    then show ?thesis
      using char Cons.IH by (simp add: encode_loop_char del: encode_loop.simps(2))
  qed
qed

section \<open>The two tables\<close>

lemma table_morse_distinct:
  "distinct (map character MORSE_TABLE_morse)" "distinct (map code MORSE_TABLE_morse)"
  by (simp_all add: MORSE_TABLE_morse_def)

lemma table_main_distinct_chars:
  "distinct (map character MORSE_TABLE_main)"
  by (simp add: MORSE_TABLE_main_def)

lemma table_main_dup:
  "\<not> distinct (map code MORSE_TABLE_main)"
  "MORSE_TABLE_main ! 25 = \<lparr>character = CHR ''Z'', code = ''--..''\<rparr>"
  "MORSE_TABLE_main ! 34 = \<lparr>character = CHR ''8'', code = ''--..''\<rparr>"
  by (simp_all add: MORSE_TABLE_main_def)

lemma table_codes_no_star:
  "list_all (\<lambda>e. CHR ''*'' \<notin> set (c_str (code e))) MORSE_TABLE_morse"
  "list_all (\<lambda>e. CHR ''*'' \<notin> set (c_str (code e))) MORSE_TABLE_main"
  by (simp_all add: MORSE_TABLE_morse_def MORSE_TABLE_main_def c_str_def)

lemma table_codes_shape:
  "list_all (\<lambda>e. c_str (code e) \<noteq> [] \<and> CHR '' '' \<notin> set (c_str (code e))) MORSE_TABLE_morse"
  "list_all (\<lambda>e. c_str (code e) \<noteq> [] \<and> CHR '' '' \<notin> set (c_str (code e))) MORSE_TABLE_main"
  by (simp_all add: MORSE_TABLE_morse_def MORSE_TABLE_main_def c_str_def)

text \<open>With these tables no encoding starts with a space, and the encoding of a text that
  ends in an encoded character does not end with one.\<close>

lemma encodeText_first_last:
  "take 1 (encodeText MORSE_TABLE_morse sl t) \<noteq> '' ''"
  "take 1 (encodeText MORSE_TABLE_main sl t) \<noteq> '' ''"
  "CHR 0x00 \<notin> set a \<Longrightarrow> a \<noteq> [] \<Longrightarrow> last a \<notin> {CHR '' '', CHR 0x0A, CHR 0x0D} \<Longrightarrow>
     last (encodeText MORSE_TABLE_morse sl a) \<noteq> CHR '' '' \<and>
     last (encodeText MORSE_TABLE_main sl a) \<noteq> CHR '' ''"
proof -
  show "take 1 (encodeText MORSE_TABLE_morse sl t) \<noteq> '' ''"
    "take 1 (encodeText MORSE_TABLE_main sl t) \<noteq> '' ''"
    using encode_loop_first [OF table_codes_shape(1), of sl False "c_str t"]
      encode_loop_first [OF table_codes_shape(2), of sl False "c_str t"]
    by (simp_all add: encodeText_def)
  assume a: "CHR 0x00 \<notin> set a" "a \<noteq> []" "last a \<notin> {CHR '' '', CHR 0x0A, CHR 0x0D}"
  then have l: "\<not> is_skip (last a)" "last a \<noteq> CHR '' ''"
    by (simp_all add: is_skip_def)
  show "last (encodeText MORSE_TABLE_morse sl a) \<noteq> CHR '' '' \<and>
     last (encodeText MORSE_TABLE_main sl a) \<noteq> CHR '' ''"
    using encode_loop_last [OF table_codes_shape(1) a(2) l, of sl "[]" False True]
      encode_loop_last [OF table_codes_shape(2) a(2) l, of sl "[]" False True] a(1)
    by (simp add: encodeText_def c_str_id)
qed

lemma table_codes_short:
  "list_all (\<lambda>e. length (c_str (code e)) \<le> 6) MORSE_TABLE_morse"
  "list_all (\<lambda>e. length (c_str (code e)) \<le> 6) MORSE_TABLE_main"
  by (simp_all add: MORSE_TABLE_morse_def MORSE_TABLE_main_def c_str_def)

lemma tables_slash_only_space:
  "list_all (\<lambda>e. character e = CHR '' '' \<or> CHR ''/'' \<notin> set (c_str (code e))) MORSE_TABLE_morse"
  "list_all (\<lambda>e. character e = CHR '' '' \<or> CHR ''/'' \<notin> set (c_str (code e))) MORSE_TABLE_main"
  by (simp_all add: MORSE_TABLE_morse_def MORSE_TABLE_main_def c_str_def)

lemma remove_space_entry:
  "filter (\<lambda>e. character e \<noteq> CHR '' '') MORSE_TABLE_morse = remove1 space_entry MORSE_TABLE_morse"
  "filter (\<lambda>e. c_str (code e) \<noteq> ''/'') MORSE_TABLE_morse = remove1 space_entry MORSE_TABLE_morse"
  "filter (\<lambda>e. character e \<noteq> CHR '' '') MORSE_TABLE_main = remove1 space_entry MORSE_TABLE_main"
  "filter (\<lambda>e. c_str (code e) \<noteq> ''/'') MORSE_TABLE_main = remove1 space_entry MORSE_TABLE_main"
  "space_entry \<in> set MORSE_TABLE_morse" "space_entry \<in> set MORSE_TABLE_main"
  by (simp_all add: MORSE_TABLE_morse_def MORSE_TABLE_main_def c_str_def space_entry_def)

lemma supported_plain: "list_all (\<lambda>c. c = CHR '' '' \<or> is_plain c) supported"
  by (simp add: supported_def is_plain_def is_skip_def)

text \<open>The rules that evaluate the decoder on a given string.\<close>

lemmas decode_eval =
  decodeText_eq decode_fun_def dec_finish_def flush_def found_def strcmp_eq_def c_str_def

lemma roundtrip_morse_eval:
  "list_all (\<lambda>c. c = CHR '' '' \<or>
      decodeText MORSE_TABLE_morse (encodeText MORSE_TABLE_morse False [c]) = Inr [toupper c])
    supported"
  by code_simp

lemma roundtrip_main_eval:
  "list_all (\<lambda>c. c = CHR '' '' \<or> c = CHR ''8'' \<or>
      decodeText MORSE_TABLE_main (encodeText MORSE_TABLE_main False [c]) = Inr [toupper c])
    supported"
  by code_simp

section \<open>The parts of the claims about unknown characters and codes\<close>

lemma encodeText_buf_nonempty:
  "malloc_ok (strlen t * 10) \<and> 0 < strlen t \<longrightarrow>
     encodeText_buf malloc_ok MORSE_TABLE_morse sl t = Inr (encodeText MORSE_TABLE_morse sl t) \<and>
     encodeText_buf malloc_ok MORSE_TABLE_main False t = Inr (encodeText MORSE_TABLE_main False t)"
  by (simp add: encodeText_buf_tables [OF table_codes_short(1)]
      encodeText_buf_tables [OF table_codes_short(2)])

lemma encodeText_stars:
  "list_all (\<lambda>e. CHR ''*'' \<notin> set (c_str (code e))) tbl \<longrightarrow>
     count_list (encodeText tbl sl t) (CHR ''*'') =
       length (filter (\<lambda>c. c \<noteq> CHR 0x0A \<and> c \<noteq> CHR 0x0D \<and> c \<noteq> CHR '' '' \<and>
                           getCharacterCode tbl c = None) (c_str t))"
proof
  assume "list_all (\<lambda>e. CHR ''*'' \<notin> set (c_str (code e))) tbl"
  then show "count_list (encodeText tbl sl t) (CHR ''*'') =
       length (filter (\<lambda>c. c \<noteq> CHR 0x0A \<and> c \<noteq> CHR 0x0D \<and> c \<noteq> CHR '' '' \<and>
                           getCharacterCode tbl c = None) (c_str t))"
    using count_encode_loop [of tbl sl "[]" False True "c_str t"]
    by (simp add: encodeText_def is_skip_def conj_assoc)
qed

lemma encodeText_word_codes:
  "list_all is_plain w \<longrightarrow>
     encodeText tbl sl w =
       join '' '' (map (\<lambda>c. case getCharacterCode tbl c of Some cd \<Rightarrow> c_str cd | None \<Rightarrow> ''*'') w)"
  using encodeText_word [of w tbl sl] by (simp add: symbol_def [abs_def])

lemma decodeText_total: "\<exists>s. decodeText tbl m = Inr s"
  by (simp add: decodeText_eq)

lemma decodeText_code_end:
  "CHR 0x00 \<notin> set p \<and> at_code_start p \<and>
   list_all (\<lambda>c. is_code_byte c \<or> is_skip c) k \<and> strip_newlines k \<noteq> [] \<longrightarrow>
     (\<exists>dp dq ds e.
        e = (if getCodeCharacter tbl (take 19 (strip_newlines k)) = CHR 0x00 then []
             else [getCodeCharacter tbl (take 19 (strip_newlines k))]) \<and>
        decodeText tbl p = Inr dp \<and> decodeText tbl q = Inr dq \<and>
        decodeText tbl (CHR '' '' # q) = Inr ds \<and>
        decodeText tbl (p @ k) = Inr (dp @ e) \<and>
        decodeText tbl (p @ k @ CHR '' '' # q) = Inr (dp @ e @ ds) \<and>
        decodeText tbl (p @ k @ CHR ''/'' # q) = Inr (dp @ e @ '' '' @ dq))"
proof
  assume a: "CHR 0x00 \<notin> set p \<and> at_code_start p \<and>
   list_all (\<lambda>c. is_code_byte c \<or> is_skip c) k \<and> strip_newlines k \<noteq> []"
  then have p: "CHR 0x00 \<notin> set p" and s: "at_code_start p"
    and k: "list_all (\<lambda>c. is_code_byte c \<or> is_skip c) k" and n: "strip_newlines k \<noteq> []"
    by simp_all
  have "CHR 0x00 \<notin> set k"
    by (rule code_or_skip_no_nul [OF k])
  then have c: "c_str (p @ k) = p @ k" "c_str (p @ k @ CHR '' '' # q) = p @ k @ CHR '' '' # c_str q"
    "c_str (p @ k @ CHR ''/'' # q) = p @ k @ CHR ''/'' # c_str q" "c_str p = p"
    "c_str (CHR '' '' # q) = CHR '' '' # c_str q"
    using p by (simp_all add: c_str_append c_str_id) (simp_all add: c_str_def)
  show "\<exists>dp dq ds e.
        e = (if getCodeCharacter tbl (take 19 (strip_newlines k)) = CHR 0x00 then []
             else [getCodeCharacter tbl (take 19 (strip_newlines k))]) \<and>
        decodeText tbl p = Inr dp \<and> decodeText tbl q = Inr dq \<and>
        decodeText tbl (CHR '' '' # q) = Inr ds \<and>
        decodeText tbl (p @ k) = Inr (dp @ e) \<and>
        decodeText tbl (p @ k @ CHR '' '' # q) = Inr (dp @ e @ ds) \<and>
        decodeText tbl (p @ k @ CHR ''/'' # q) = Inr (dp @ e @ '' '' @ dq)"
    using decode_fun_code_end [OF s k n, of tbl]
    by (simp add: decodeText_eq c found_def)
qed

lemma decodeText_tokens:
  "list_all (\<lambda>k. k \<noteq> [] \<and> list_all is_code_byte k) ks \<longrightarrow>
     decodeText tbl (join '' '' ks) =
       Inr (concat (map (\<lambda>k. if getCodeCharacter tbl (take 19 k) = CHR 0x00 then []
                               else [getCodeCharacter tbl (take 19 k)]) ks))"
proof
  assume a: "list_all (\<lambda>k. k \<noteq> [] \<and> list_all is_code_byte k) ks"
  show "decodeText tbl (join '' '' ks) =
       Inr (concat (map (\<lambda>k. if getCodeCharacter tbl (take 19 k) = CHR 0x00 then []
                               else [getCodeCharacter tbl (take 19 k)]) ks))"
    using decode_fun_tokens [OF a, of tbl] c_str_join [OF a]
    by (simp add: decodeText_eq found_def [abs_def])
qed

lemma unknown_examples:
  "encodeText MORSE_TABLE_morse sl ''#'' = ''*''"
  "encodeText MORSE_TABLE_main False ''#'' = ''*''"
  "decodeText MORSE_TABLE_morse ''#'' = Inr []"
  "decodeText MORSE_TABLE_main ''#'' = Inr []"
  "decodeText MORSE_TABLE_morse ''#/'' = Inr '' ''"
  "decodeText MORSE_TABLE_morse ''#   .-'' = Inr '' A''"
  by (simp_all add: encodeText_def strcat_def getCharacterCode_def toupper_def decode_eval
      MORSE_TABLE_morse_def MORSE_TABLE_main_def)

lemma encodeText_buf_empty_text:
  "encodeText_buf malloc_ok tbl sl [] = (if malloc_ok 0 then Inl OutOfBounds else Inl MemoryError)"
  by (rule encodeText_buf_empty) (simp add: strlen_def c_str_def)

lemma decodeText_code_lookup:
  assumes k: "list_all (\<lambda>c. is_code_byte c \<or> is_skip c) k"
  shows "CHR 0x00 \<notin> set p \<and> at_code_start p \<and> strip_newlines k \<noteq> [] \<longrightarrow>
     (\<exists>dp. decodeText tbl p = Inr dp \<and>
        decodeText tbl (p @ k) =
          Inr (dp @ (if getCodeCharacter tbl (take 19 (strip_newlines k)) = CHR 0x00 then []
                     else [getCodeCharacter tbl (take 19 (strip_newlines k))])))"
proof
  assume a: "CHR 0x00 \<notin> set p \<and> at_code_start p \<and> strip_newlines k \<noteq> []"
  then have "c_str (p @ k) = p @ k" "c_str p = p"
    using code_or_skip_no_nul [OF k] by (simp_all add: c_str_id)
  then show "\<exists>dp. decodeText tbl p = Inr dp \<and>
        decodeText tbl (p @ k) =
          Inr (dp @ (if getCodeCharacter tbl (take 19 (strip_newlines k)) = CHR 0x00 then []
                     else [getCodeCharacter tbl (take 19 (strip_newlines k))]))"
    using a decode_fun_code_end(1) [OF _ k, of p tbl]
    by (simp add: decodeText_eq found_def)
qed

lemma codeBuf_in_bounds:
  "\<exists>st0 st. decode_init (strlen m + 1) = Inr st0 \<and> decode_loop tbl st0 (c_str m) = Inr st \<and>
     length (codeBuf st) = 20 \<and> codeBufIndex st \<le> 19"
proof -
  obtain st0 st where i: "decode_init (strlen m + 1) = Inr st0"
    and l: "decode_loop tbl st0 (c_str m) = Inr st"
    and r: "rel (strlen m + 1) st (foldl (dec_step tbl) ([], [], 0) (c_str m))"
    using decode_loop_init by blast
  from r have "length (codeBuf st) = 20" "codeBufIndex st \<le> 19"
    by (cases "foldl (dec_step tbl) ([], [], 0) (c_str m)"; simp add: rel_def)+
  then show ?thesis
    using i l by blast
qed

section \<open>The claims\<close>

text \<open>
  C1 (as amended). For every supported character \<open>c\<close> other than the space, decoding the
  encoding of the one-character string \<open>[c]\<close> gives the one-character string of its upper
  case: in \<^verbatim>\<open>morse.c\<close> for every such \<open>c\<close>, in \<^verbatim>\<open>main.c\<close> for every such \<open>c\<close> but the
  digit 8, whose table entry carries the code of Z.
\<close>

theorem roundtrip_supported:
  assumes "c \<in> set supported" "c \<noteq> CHR '' ''"
  shows "decodeText MORSE_TABLE_morse (encodeText MORSE_TABLE_morse sl [c]) = Inr [toupper c] \<and>
    (c \<noteq> CHR ''8'' \<longrightarrow>
       decodeText MORSE_TABLE_main (encodeText MORSE_TABLE_main False [c]) = Inr [toupper c])"
proof -
  have p: "is_plain c"
    using supported_plain assms by (auto simp: list_all_iff)
  have "decodeText MORSE_TABLE_morse (encodeText MORSE_TABLE_morse False [c]) = Inr [toupper c]"
    using roundtrip_morse_eval assms by (auto simp: list_all_iff)
  moreover have "c \<noteq> CHR ''8'' \<longrightarrow>
      decodeText MORSE_TABLE_main (encodeText MORSE_TABLE_main False [c]) = Inr [toupper c]"
    using roundtrip_main_eval assms by (auto simp: list_all_iff)
  ultimately show ?thesis
    using encodeText_char_flag [OF p, of MORSE_TABLE_morse sl] by simp
qed

theorem roundtrip_supported_witness:
  "CHR ''a'' \<in> set supported \<and> CHR ''a'' \<noteq> CHR '' '' \<and> CHR ''a'' \<noteq> CHR ''8'' \<and>
   decodeText MORSE_TABLE_morse (encodeText MORSE_TABLE_morse True ''a'') = Inr ''A'' \<and>
   decodeText MORSE_TABLE_main (encodeText MORSE_TABLE_main False ''a'') = Inr ''A''"
  using roundtrip_supported [of "CHR ''a''" True]
  by (simp add: supported_def toupper_def)

text \<open>
  C1 as stated fails at the space, a supported character: \<^verbatim>\<open>encodeText\<close> treats it as a
  word boundary and emits nothing for it, so the round trip yields the empty string.
\<close>

theorem roundtrip_space_counterexample:
  "CHR '' '' \<in> set supported \<and>
   decodeText MORSE_TABLE_morse (encodeText MORSE_TABLE_morse False '' '') = Inr [] \<and>
   decodeText MORSE_TABLE_morse (encodeText MORSE_TABLE_morse False '' '') \<noteq> Inr [toupper (CHR '' '')]"
  by (simp add: supported_def decode_eval encodeText_def)

text \<open>
  C2. The table is to be a bijection: no character twice, no code twice. The table of
  \<^verbatim>\<open>morse.c\<close> is one. In the table of \<^verbatim>\<open>main.c\<close> the entries of Z (index 25) and of 8
  (index 34) carry the same code \<^verbatim>\<open>--..\<close>, so the digit 8 is encoded as Z is, and the
  code decodes to Z.
\<close>

theorem MORSE_TABLE_main_duplicate_code:
  "MORSE_TABLE_main ! 25 = \<lparr>character = CHR ''Z'', code = ''--..''\<rparr> \<and>
   MORSE_TABLE_main ! 34 = \<lparr>character = CHR ''8'', code = ''--..''\<rparr> \<and>
   \<not> distinct (map code MORSE_TABLE_main) \<and>
   getCharacterCode MORSE_TABLE_main (CHR ''8'') = Some ''--..'' \<and>
   getCodeCharacter MORSE_TABLE_main ''--..'' = CHR ''Z'' \<and>
   distinct (map character MORSE_TABLE_main) \<and>
   distinct (map character MORSE_TABLE_morse) \<and> distinct (map code MORSE_TABLE_morse)"
  using table_main_dup table_morse_distinct table_main_distinct_chars
  by (simp add: MORSE_TABLE_main_def getCharacterCode_def toupper_def strcmp_eq_def c_str_def)

text \<open>
  C3. For every input string \<open>m\<close>, \<open>decodeText\<close> returns a string no longer than \<open>m\<close>: no
  write into \<^verbatim>\<open>result\<close> or \<^verbatim>\<open>codeBuf\<close> leaves its buffer (the model's \<open>OutOfBounds\<close> is never
  returned). The loop ends with \<^verbatim>\<open>resultIndex\<close> inside the \<^verbatim>\<open>strlen(m) + 1\<close> bytes allocated,
  and the decoded text has at most \<^verbatim>\<open>strlen(m)\<close> characters, so its terminator is inside too.
\<close>

theorem decodeText_within_buffer:
  "\<exists>st0 st s. decode_init (strlen m + 1) = Inr st0 \<and> decode_loop tbl st0 (c_str m) = Inr st \<and>
      length (result st) = strlen m + 1 \<and> resultIndex st < length (result st) \<and>
      decodeText tbl m = Inr s \<and> length s \<le> strlen m \<and> length s \<le> length m"
proof -
  let ?a = "foldl (dec_step tbl) ([], [], 0) (c_str m)"
  obtain st0 st where i: "decode_init (strlen m + 1) = Inr st0"
    and l: "decode_loop tbl st0 (c_str m) = Inr st" and r: "rel (strlen m + 1) st ?a"
    using decode_loop_init by blast
  from r have "length (result st) = strlen m + 1" "resultIndex st < length (result st)"
    by (cases ?a; simp add: rel_def)+
  moreover have "length (decode_fun tbl (c_str m)) \<le> strlen m"
    using length_decode_fun [of tbl "c_str m"] by (simp add: strlen_def)
  ultimately show ?thesis
    using i l strlen_le [of m] by (simp add: decodeText_eq)
qed

theorem decodeText_within_buffer_witness:
  "decodeText MORSE_TABLE_morse ''.- / -...'' = Inr ''A B'' \<and>
   length ''A B'' \<le> strlen ''.- / -...''"
  using decodeText_within_buffer [of "''.- / -...''" MORSE_TABLE_morse]
  by (simp add: decode_eval MORSE_TABLE_morse_def strlen_def)

text \<open>
  C4. Neither operation is to fail, and the two degrade differently. The degradation is as
  claimed. \<^verbatim>\<open>encodeText\<close> writes one star for each character that reaches the lookup and has
  no table entry: the stars of the output are as many as those characters (for a table
  whose codes hold no star, as both tables are), and a word without spaces is encoded as
  the codes or stars of its characters, joined by single spaces. \<^verbatim>\<open>decodeText\<close> returns a
  string for every input, ignores \<^verbatim>\<open>\n\<close> and \<^verbatim>\<open>\r\<close>, and wherever a code ends (at a space,
  at a slash or at the end of the input) it appends the character found for the first 19
  bytes of the code and nothing when the table has none; so also on codes joined by single
  spaces. In particular \<^verbatim>\<open>#\<close> is encoded as a star and decoded as the empty string.

  \<^verbatim>\<open>encodeText\<close> does fail, on the empty text: it asks \<^verbatim>\<open>malloc\<close> for
  \<^verbatim>\<open>strlen(text) * 10\<close> = 0 bytes and, if it is given memory, stores the terminator
  \<^verbatim>\<open>result[0]\<close> outside it (\<^verbatim>\<open>decodeText\<close> asks for \<^verbatim>\<open>strlen(morse) + 1\<close> bytes). On every
  text that is not empty it returns the string built, whenever \<^verbatim>\<open>malloc\<close> returns memory.
\<close>

theorem degradation:
  "encodeText_buf malloc_ok tbl sl [] = (if malloc_ok 0 then Inl OutOfBounds else Inl MemoryError) \<and>
   (malloc_ok (strlen t * 10) \<and> 0 < strlen t \<longrightarrow>
      encodeText_buf malloc_ok MORSE_TABLE_morse sl t = Inr (encodeText MORSE_TABLE_morse sl t) \<and>
      encodeText_buf malloc_ok MORSE_TABLE_main False t = Inr (encodeText MORSE_TABLE_main False t)) \<and>
   (list_all (\<lambda>e. CHR ''*'' \<notin> set (c_str (code e))) tbl \<longrightarrow>
      count_list (encodeText tbl sl t) (CHR ''*'') =
        length (filter (\<lambda>c. c \<noteq> CHR 0x0A \<and> c \<noteq> CHR 0x0D \<and> c \<noteq> CHR '' '' \<and>
                            getCharacterCode tbl c = None) (c_str t))) \<and>
   (list_all is_plain w \<longrightarrow>
      encodeText tbl sl w =
        join '' '' (map (\<lambda>c. case getCharacterCode tbl c of Some cd \<Rightarrow> c_str cd | None \<Rightarrow> ''*'') w)) \<and>
   (\<exists>s. decodeText tbl m = Inr s) \<and>
   decodeText tbl (strip_newlines m) = decodeText tbl m \<and>
   (CHR 0x00 \<notin> set p \<and> at_code_start p \<and>
    list_all (\<lambda>c. is_code_byte c \<or> is_skip c) k \<and> strip_newlines k \<noteq> [] \<longrightarrow>
      (\<exists>dp dq ds e.
         e = (if getCodeCharacter tbl (take 19 (strip_newlines k)) = CHR 0x00 then []
              else [getCodeCharacter tbl (take 19 (strip_newlines k))]) \<and>
         decodeText tbl p = Inr dp \<and> decodeText tbl q = Inr dq \<and>
         decodeText tbl (CHR '' '' # q) = Inr ds \<and>
         decodeText tbl (p @ k) = Inr (dp @ e) \<and>
         decodeText tbl (p @ k @ CHR '' '' # q) = Inr (dp @ e @ ds) \<and>
         decodeText tbl (p @ k @ CHR ''/'' # q) = Inr (dp @ e @ '' '' @ dq))) \<and>
   (list_all (\<lambda>k. k \<noteq> [] \<and> list_all is_code_byte k) ks \<longrightarrow>
      decodeText tbl (join '' '' ks) =
        Inr (concat (map (\<lambda>k. if getCodeCharacter tbl (take 19 k) = CHR 0x00 then []
                                else [getCodeCharacter tbl (take 19 k)]) ks))) \<and>
   encodeText MORSE_TABLE_morse sl ''#'' = ''*'' \<and>
   encodeText MORSE_TABLE_main False ''#'' = ''*'' \<and>
   decodeText MORSE_TABLE_morse ''#'' = Inr [] \<and>
   decodeText MORSE_TABLE_main ''#'' = Inr [] \<and>
   decodeText MORSE_TABLE_morse ''#/'' = Inr '' '' \<and>
   decodeText MORSE_TABLE_morse ''#   .-'' = Inr '' A''"
  by (intro conjI)
    (rule encodeText_buf_empty_text encodeText_buf_nonempty encodeText_stars encodeText_word_codes
      decodeText_total decodeText_strip decodeText_code_end decodeText_tokens unknown_examples)+

theorem degradation_witness:
  "list_all (\<lambda>e. CHR ''*'' \<notin> set (c_str (code e))) MORSE_TABLE_morse \<and>
   list_all is_plain ''a#'' \<and>
   list_all (\<lambda>k. k \<noteq> [] \<and> list_all is_code_byte k) [''.-'', ''#'', ''-...''] \<and>
   CHR 0x00 \<notin> set ''.- '' \<and> at_code_start ''.- '' \<and>
   list_all (\<lambda>c. is_code_byte c \<or> is_skip c) [CHR ''#'', CHR 0x0A] \<and>
   strip_newlines [CHR ''#'', CHR 0x0A] \<noteq> [] \<and>
   encodeText_buf ((\<le>) 0) MORSE_TABLE_morse False [] = Inl OutOfBounds \<and>
   0 < strlen ''a# #'' \<and>
   encodeText_buf ((\<le>) 0) MORSE_TABLE_morse False ''a# #'' = Inr ''.- *   *'' \<and>
   count_list (encodeText MORSE_TABLE_morse False ''a# #'') (CHR ''*'') = 2 \<and>
   encodeText MORSE_TABLE_morse False ''a#'' = ''.- *'' \<and>
   decodeText MORSE_TABLE_morse (''.- '' @ [CHR ''#'', CHR 0x0A]) = Inr ''A'' \<and>
   decodeText MORSE_TABLE_morse (''.- '' @ [CHR ''#'', CHR 0x0A] @ '' .-'') = Inr ''AA'' \<and>
   decodeText MORSE_TABLE_morse (''.- '' @ [CHR ''#'', CHR 0x0A] @ ''/.-'') = Inr ''A A'' \<and>
   decodeText MORSE_TABLE_morse ''.- # -...'' = Inr ''AB''"
proof -
  have h1: "list_all (\<lambda>e. CHR ''*'' \<notin> set (c_str (code e))) MORSE_TABLE_morse"
    by (rule table_codes_no_star)
  have h2: "list_all is_plain ''a#''"
    by (simp add: is_plain_def is_skip_def)
  have h3: "list_all (\<lambda>k. k \<noteq> [] \<and> list_all is_code_byte k) [''.-'', ''#'', ''-...'']"
    by (simp add: is_code_byte_def is_plain_def is_skip_def)
  have h4: "CHR 0x00 \<notin> set ''.- ''"
    by simp
  have h5: "at_code_start ''.- ''"
    by (simp add: at_code_start_def strip_newlines_def is_skip_def)
  have h6: "list_all (\<lambda>c. is_code_byte c \<or> is_skip c) [CHR ''#'', CHR 0x0A]"
    by (simp add: is_code_byte_def is_plain_def is_skip_def)
  have h7: "strip_newlines [CHR ''#'', CHR 0x0A] \<noteq> []"
    by (simp add: strip_newlines_def is_skip_def)
  have s: "strip_newlines [CHR ''#'', CHR 0x0A] = ''#''" "strlen ''a# #'' = 4"
    by (simp_all add: strip_newlines_def is_skip_def strlen_def c_str_def)
  have g: "getCharacterCode MORSE_TABLE_morse (CHR ''a'') = Some ''.-''"
    "getCharacterCode MORSE_TABLE_morse (CHR ''#'') = None"
    by (simp_all add: getCharacterCode_def toupper_def MORSE_TABLE_morse_def)
  have d: "getCodeCharacter MORSE_TABLE_morse ''.-'' = CHR ''A''"
    "getCodeCharacter MORSE_TABLE_morse ''#'' = CHR 0x00"
    "getCodeCharacter MORSE_TABLE_morse ''-...'' = CHR ''B''"
    by (simp_all add: strcmp_eq_def c_str_def MORSE_TABLE_morse_def)
  have e: "encodeText MORSE_TABLE_morse False ''a# #'' = ''.- *   *''"
    by (simp add: encodeText_def c_str_def strcat_def g)
  have x: "decodeText MORSE_TABLE_morse ''.- '' = Inr ''A''"
    "decodeText MORSE_TABLE_morse ''.-'' = Inr ''A''"
    "decodeText MORSE_TABLE_morse '' .-'' = Inr ''A''"
    by (simp_all add: decode_eval MORSE_TABLE_morse_def)
  show ?thesis
    using degradation [where malloc_ok = "(\<le>) 0" and tbl = MORSE_TABLE_morse and sl = False
        and t = "''a# #''" and w = "''a#''" and ks = "[''.-'', ''#'', ''-...'']"
        and p = "''.- ''" and k = "[CHR ''#'', CHR 0x0A]" and q = "''.-''" and m = "[]"]
      h1 h2 h3 h4 h5 h6 h7
    by (simp add: s g d e x c_str_def)
qed

text \<open>
  C5. A slash ends the pending code as the end of the input does (the code is looked up and
  its character appended, or dropped when the table has none), puts exactly one space into
  the output and leaves the decoder as it started, with no pending code and the space
  counter at 0: the text before the slash and the text after it are decoded on their own,
  and the loop leaves a slash with \<^verbatim>\<open>codeBufIndex\<close> and \<^verbatim>\<open>spaceCount\<close> at 0. In particular
  \<^verbatim>\<open>.- / -...\<close> is decoded as \<^verbatim>\<open>A B\<close>.
\<close>

theorem decodeText_slash:
  assumes "CHR 0x00 \<notin> set p"
  shows "(\<exists>a b. decodeText tbl p = Inr a \<and> decodeText tbl q = Inr b \<and>
           decodeText tbl (p @ ''/'' @ q) = Inr (a @ '' '' @ b)) \<and>
         (\<exists>st0 st. decode_init (strlen (p @ ''/'') + 1) = Inr st0 \<and>
           decode_loop tbl st0 (p @ ''/'') = Inr st \<and> codeBufIndex st = 0 \<and> spaceCount st = 0)"
proof
  show "\<exists>a b. decodeText tbl p = Inr a \<and> decodeText tbl q = Inr b \<and>
           decodeText tbl (p @ ''/'' @ q) = Inr (a @ '' '' @ b)"
    using assms decode_fun_slash [of tbl p "c_str q"]
    by (simp add: decodeText_eq c_str_append c_str_id) (simp add: c_str_def)
next
  have c: "c_str (p @ ''/'') = p @ ''/''"
    using assms by (simp add: c_str_id)
  obtain st0 st where i: "decode_init (strlen (p @ ''/'') + 1) = Inr st0"
    and l: "decode_loop tbl st0 (p @ ''/'') = Inr st"
    and r: "rel (strlen (p @ ''/'') + 1) st (foldl (dec_step tbl) ([], [], 0) (p @ ''/''))"
    using decode_loop_init [of "p @ ''/''" tbl] by (auto simp: c)
  obtain out pend sc where s: "foldl (dec_step tbl) ([], [], 0) p = (out, pend, sc)"
    by (cases "foldl (dec_step tbl) ([], [], 0) p")
  have "codeBufIndex st = 0" "spaceCount st = 0"
    using r by (simp_all add: s rel_def)
  then show "\<exists>st0 st. decode_init (strlen (p @ ''/'') + 1) = Inr st0 \<and>
           decode_loop tbl st0 (p @ ''/'') = Inr st \<and> codeBufIndex st = 0 \<and> spaceCount st = 0"
    using i l by blast
qed

theorem decodeText_slash_witness:
  "CHR 0x00 \<notin> set ''.- '' \<and> decodeText MORSE_TABLE_morse ''.- '' = Inr ''A'' \<and>
   decodeText MORSE_TABLE_morse '' -...'' = Inr ''B'' \<and>
   decodeText MORSE_TABLE_morse ''.- / -...'' = Inr ''A B'' \<and>
   decodeText MORSE_TABLE_main ''.- / -...'' = Inr ''A B''"
proof -
  have h: "CHR 0x00 \<notin> set ''.- ''"
    by simp
  have "decodeText MORSE_TABLE_morse ''.- '' = Inr ''A''"
    "decodeText MORSE_TABLE_morse '' -...'' = Inr ''B''"
    by (simp_all add: decode_eval MORSE_TABLE_morse_def)
  moreover have "decodeText MORSE_TABLE_main ''.- / -...'' = Inr ''A B''"
    by (simp add: decode_eval MORSE_TABLE_main_def)
  ultimately show ?thesis
    using decodeText_slash [OF h, of MORSE_TABLE_morse "'' -...''"] by simp
qed

text \<open>
  C6. With the flag \<^verbatim>\<open>useSlashWordspacer\<close> set, the space after a word is encoded as the
  three bytes \<^verbatim>\<open> / \<close> where it is three spaces without the flag, and a word without
  spaces is encoded the same with and without it: the letter separator stays one space. In
  particular \<^verbatim>\<open>AB CD\<close> is encoded as \<^verbatim>\<open>.- -... / -.-. -..\<close>.
\<close>

theorem encodeText_slash_separator:
  assumes "CHR 0x00 \<notin> set a" "a \<noteq> []" "last a \<notin> {CHR '' '', CHR 0x0A, CHR 0x0D}"
    and "list_all is_plain w"
  shows "encodeText tbl True (a @ '' '' @ b) = encodeText tbl True a @ '' / '' @ encodeText tbl True b \<and>
         encodeText tbl False (a @ '' '' @ b) = encodeText tbl False a @ ''   '' @ encodeText tbl False b \<and>
         encodeText tbl True w = encodeText tbl False w \<and>
         encodeText MORSE_TABLE_morse True ''AB CD'' = ''.- -... / -.-. -..''"
proof -
  have l: "\<not> is_skip (last a)" "last a \<noteq> CHR '' ''"
    using assms(3) by (simp_all add: is_skip_def)
  have "encodeText MORSE_TABLE_morse True ''AB CD'' = ''.- -... / -.-. -..''"
    by (simp add: encodeText_def c_str_def strcat_def getCharacterCode_def toupper_def
        MORSE_TABLE_morse_def)
  then show ?thesis
    using encodeText_word_space [OF assms(1,2) l, of tbl True b]
      encodeText_word_space [OF assms(1,2) l, of tbl False b]
      encodeText_word [OF assms(4), of tbl True] encodeText_word [OF assms(4), of tbl False]
    by (simp add: wordsep_def)
qed

theorem encodeText_slash_separator_witness:
  "CHR 0x00 \<notin> set ''AB'' \<and> ''AB'' \<noteq> [] \<and> last ''AB'' \<notin> {CHR '' '', CHR 0x0A, CHR 0x0D} \<and>
   list_all is_plain ''CD'' \<and>
   encodeText MORSE_TABLE_morse True ''AB'' = ''.- -...'' \<and>
   encodeText MORSE_TABLE_morse True ''CD'' = ''-.-. -..'' \<and>
   encodeText MORSE_TABLE_morse True ''AB CD'' = ''.- -... / -.-. -..'' \<and>
   encodeText MORSE_TABLE_morse False ''AB CD'' = ''.- -...   -.-. -..''"
proof -
  have h: "CHR 0x00 \<notin> set ''AB''" "''AB'' \<noteq> []" "last ''AB'' \<notin> {CHR '' '', CHR 0x0A, CHR 0x0D}"
    "list_all is_plain ''CD''"
    by (simp_all add: is_plain_def is_skip_def)
  have e: "encodeText MORSE_TABLE_morse False ''AB'' = ''.- -...''"
    "encodeText MORSE_TABLE_morse False ''CD'' = ''-.-. -..''"
    "encodeText MORSE_TABLE_morse True ''AB'' = ''.- -...''"
    by (simp_all add: encodeText_def c_str_def strcat_def getCharacterCode_def toupper_def
        MORSE_TABLE_morse_def)
  show ?thesis
    using encodeText_slash_separator [OF h, of MORSE_TABLE_morse "''CD''"] h e by simp
qed

text \<open>
  C7. A trailing run of spaces is to produce no trailing separator. \<^verbatim>\<open>encodeText\<close> appends
  the word separator at the first space after a word, before it has seen whether a word
  follows: the text \<^verbatim>\<open>A\<close> followed by one space is encoded as \<^verbatim>\<open>.-\<close> followed by three
  spaces, and with the slash flag as \<^verbatim>\<open>.-\<close> followed by \<^verbatim>\<open> / \<close>, where the encoding of
  \<^verbatim>\<open>A\<close> alone is \<^verbatim>\<open>.-\<close>. (Lemmas \<open>encodeText_runs\<close> and \<open>encodeText_first_last\<close> have the parts of the
  claim that hold: leading runs and runs between words.)
\<close>

theorem encodeText_trailing_space:
  "encodeText MORSE_TABLE_morse False ''A '' = ''.-'' @ ''   '' \<and>
   encodeText MORSE_TABLE_morse True ''A '' = ''.-'' @ '' / '' \<and>
   encodeText MORSE_TABLE_main False ''A '' = ''.-'' @ ''   '' \<and>
   encodeText MORSE_TABLE_morse False ''A'' = ''.-'' \<and>
   encodeText MORSE_TABLE_main False ''A'' = ''.-''"
  by (simp add: encodeText_def c_str_def strcat_def getCharacterCode_def toupper_def
      MORSE_TABLE_morse_def MORSE_TABLE_main_def)



text \<open>
  C9 (as amended). \<^verbatim>\<open>codeBuf\<close> holds at most 19 bytes of a code. The bytes other than space,
  slash, \<^verbatim>\<open>\n\<close> and \<^verbatim>\<open>\r\<close> that arrive between two separators are collected into one code,
  \<^verbatim>\<open>\n\<close> and \<^verbatim>\<open>\r\<close> among them being skipped without ending it. Anywhere in the input, a
  stretch of such bytes and newlines can be replaced by its first 19 bytes other than
  newlines without changing the result; where the stretch starts a code and is the end of
  the input, the character appended for it is the one found for those 19 bytes. The loop
  never writes outside the 20 bytes of \<^verbatim>\<open>codeBuf\<close> and ends with \<^verbatim>\<open>codeBufIndex\<close> at most 19.
\<close>

theorem codeBuf_capped:
  assumes "list_all (\<lambda>c. is_code_byte c \<or> is_skip c) k"
  shows "decodeText tbl (a @ k @ b) = decodeText tbl (a @ take 19 (strip_newlines k) @ b) \<and>
     (CHR 0x00 \<notin> set p \<and> at_code_start p \<and> strip_newlines k \<noteq> [] \<longrightarrow>
        (\<exists>dp. decodeText tbl p = Inr dp \<and>
           decodeText tbl (p @ k) =
             Inr (dp @ (if getCodeCharacter tbl (take 19 (strip_newlines k)) = CHR 0x00 then []
                        else [getCodeCharacter tbl (take 19 (strip_newlines k))])))) \<and>
     (\<exists>st0 st. decode_init (strlen m + 1) = Inr st0 \<and> decode_loop tbl st0 (c_str m) = Inr st \<and>
        length (codeBuf st) = 20 \<and> codeBufIndex st \<le> 19)"
  using decodeText_cap [OF assms, of tbl a b] decodeText_code_lookup [OF assms, of p tbl]
    codeBuf_in_bounds [of m tbl]
  by (intro conjI)

theorem codeBuf_capped_witness:
  "list_all (\<lambda>c. is_code_byte c \<or> is_skip c) (''..........'' @ [CHR 0x0A] @ ''...........'') \<and>
   CHR 0x00 \<notin> set ''.- '' \<and> at_code_start ''.- '' \<and>
   strip_newlines (''..........'' @ [CHR 0x0A] @ ''...........'') = ''.....................'' \<and>
   take 19 ''.....................'' = ''...................'' \<and>
   decodeText [\<lparr>character = CHR ''X'', code = ''...................''\<rparr>] ''.- '' = Inr [] \<and>
   decodeText [\<lparr>character = CHR ''X'', code = ''...................''\<rparr>]
     (''.- '' @ (''..........'' @ [CHR 0x0A] @ ''...........'')) = Inr ''X'' \<and>
   decodeText [\<lparr>character = CHR ''X'', code = ''...................''\<rparr>]
     (''.- '' @ (''..........'' @ [CHR 0x0A] @ ''...........'') @ '' .'') =
   decodeText [\<lparr>character = CHR ''X'', code = ''...................''\<rparr>]
     (''.- '' @ ''...................'' @ '' .'')"
proof -
  let ?tbl = "[\<lparr>character = CHR ''X'', code = ''...................''\<rparr>]"
  let ?k = "''..........'' @ [CHR 0x0A] @ ''...........''"
  have h: "list_all (\<lambda>c. is_code_byte c \<or> is_skip c) ?k" "CHR 0x00 \<notin> set ''.- ''"
    "at_code_start ''.- ''"
    by (simp_all add: is_code_byte_def is_plain_def is_skip_def at_code_start_def strip_newlines_def)
  have s: "strip_newlines ?k = ''.....................''"
    by (simp add: strip_newlines_def is_skip_def)
  have g: "getCodeCharacter ?tbl ''...................'' = CHR ''X''"
    by (simp add: strcmp_eq_def c_str_def)
  have e: "decodeText ?tbl ''.- '' = Inr []"
    by (simp add: decode_eval)
  show ?thesis
    using codeBuf_capped [OF h(1), where tbl = ?tbl and a = "''.- ''" and b = "'' .''"
        and p = "''.- ''" and m = "[]"] h
    by (simp only: s) (simp add: e strcmp_eq_def c_str_def)
qed

text \<open>
  C9 as stated fails where a newline stands inside a code: the run after the newline is not
  looked up by its own bytes. A dot, a newline and a dash are decoded as A, the code of
  both, where the dot alone is E and the dash alone is T; and with a table that has a code
  of 19 dots, two runs of 10 dots with a newline between them are decoded by that code, the
  tenth byte of the second run being discarded.
\<close>

theorem codeBuf_newline_counterexample:
  "decodeText MORSE_TABLE_morse [CHR ''.'', CHR 0x0A, CHR ''-''] = Inr ''A'' \<and>
   decodeText MORSE_TABLE_morse ''.'' = Inr ''E'' \<and>
   decodeText MORSE_TABLE_morse ''-'' = Inr ''T'' \<and>
   decodeText MORSE_TABLE_main [CHR ''.'', CHR 0x0A, CHR ''-''] = Inr ''A'' \<and>
   decodeText [\<lparr>character = CHR ''X'', code = ''...................''\<rparr>]
     (''..........'' @ [CHR 0x0A] @ ''..........'') = Inr ''X'' \<and>
   decodeText [\<lparr>character = CHR ''X'', code = ''...................''\<rparr>]
     ''..........'' = Inr []"
  by (simp add: decode_eval MORSE_TABLE_morse_def MORSE_TABLE_main_def)

text \<open>
  C10. Neither operation ever matches the table entry of the space, whose code is the
  slash. \<^verbatim>\<open>encodeText\<close> looks up no space: it gives the same result on the table without
  the entries of the space, a single space is encoded as the empty string, and without the
  slash flag no slash appears in the output. \<^verbatim>\<open>decodeText\<close> looks up no code \<^verbatim>\<open>/\<close>: it
  gives the same result on the table without the entries of that code. For both tables,
  that is the table without \<open>space_entry\<close>.
\<close>

theorem space_entry_unused:
  "encodeText (filter (\<lambda>e. character e \<noteq> CHR '' '') tbl) sl t = encodeText tbl sl t \<and>
   decodeText (filter (\<lambda>e. c_str (code e) \<noteq> ''/'') tbl) m = decodeText tbl m \<and>
   space_entry \<in> set MORSE_TABLE_morse \<and> space_entry \<in> set MORSE_TABLE_main \<and>
   encodeText (remove1 space_entry MORSE_TABLE_morse) sl t = encodeText MORSE_TABLE_morse sl t \<and>
   decodeText (remove1 space_entry MORSE_TABLE_morse) m = decodeText MORSE_TABLE_morse m \<and>
   encodeText (remove1 space_entry MORSE_TABLE_main) False t = encodeText MORSE_TABLE_main False t \<and>
   decodeText (remove1 space_entry MORSE_TABLE_main) m = decodeText MORSE_TABLE_main m \<and>
   encodeText tbl sl '' '' = [] \<and>
   CHR ''/'' \<notin> set (encodeText MORSE_TABLE_morse False t) \<and>
   CHR ''/'' \<notin> set (encodeText MORSE_TABLE_main False t)"
proof -
  have e: "encodeText (filter (\<lambda>e. character e \<noteq> CHR '' '') tbl) sl t = encodeText tbl sl t"
    for tbl sl
    by (simp add: encodeText_def encode_loop_table)
  have d: "decodeText (filter (\<lambda>e. c_str (code e) \<noteq> ''/'') tbl) m = decodeText tbl m" for tbl
    by (simp add: decodeText_eq decode_fun_table)
  have s: "encodeText tbl sl '' '' = []"
    by (simp add: encodeText_def c_str_def)
  have n: "CHR ''/'' \<notin> set (encodeText MORSE_TABLE_morse False t)"
    "CHR ''/'' \<notin> set (encodeText MORSE_TABLE_main False t)"
    using encode_loop_no_slash [OF tables_slash_only_space(1), of "[]" False True "c_str t"]
      encode_loop_no_slash [OF tables_slash_only_space(2), of "[]" False True "c_str t"]
    by (simp_all add: encodeText_def)
  show ?thesis
    using e [of tbl sl] d [of tbl] e [of MORSE_TABLE_morse sl] d [of MORSE_TABLE_morse]
      e [of MORSE_TABLE_main False] d [of MORSE_TABLE_main] s n
    by (simp add: remove_space_entry)
qed

theorem space_entry_unused_witness:
  "encodeText (remove1 space_entry MORSE_TABLE_morse) False '' a b'' = ''.-   -...'' \<and>
   decodeText (remove1 space_entry MORSE_TABLE_morse) ''/ .-'' = Inr '' A'' \<and>
   encodeText MORSE_TABLE_morse False '' '' = []"
proof -
  have "encodeText MORSE_TABLE_morse False '' a b'' = ''.-   -...''"
    by (simp add: encodeText_def c_str_def strcat_def getCharacterCode_def toupper_def
        MORSE_TABLE_morse_def)
  moreover have "decodeText MORSE_TABLE_morse ''/ .-'' = Inr '' A''"
    by (simp add: decode_eval MORSE_TABLE_morse_def)
  ultimately show ?thesis
    using space_entry_unused [of MORSE_TABLE_morse False "'' a b''" "''/ .-''"] by simp
qed

end
